theory Spec2Isabelle
  imports Complex_Main "HOL-Library.Multiset"
begin

section \<open>Data model of jellyfin_recap.py\<close>

text \<open>
  The script works on JSON values decoded by \<open>json.loads\<close>: a user is a dictionary with
  the keys \<open>Id\<close> and \<open>Name\<close>, an audio item a dictionary with \<open>Id\<close>, \<open>Name\<close>,
  \<open>AlbumArtist\<close>, \<open>Artists\<close>, \<open>RunTimeTicks\<close> and, after lines 151-155, \<open>UserData\<close>,
  which maps a user name to the user data of the item, of which only \<open>PlayCount\<close> is read.
  The fixed keys are record fields; \<open>AlbumArtist\<close> and \<open>RunTimeTicks\<close>, which the
  server leaves out for items without one, are optional. Numbers in JSON have no bound, so
  play counts and ticks are unbounded integers. Python dictionaries keep insertion order,
  and the order decides ties in line 184, so a dictionary is an association list with
  distinct keys.
\<close>

datatype py_error = KeyError string | IndexError | OverflowError | TypeError | RequestFailed

type_synonym ('k, 'v) dict = "('k \<times> 'v) list"

definition dict_get :: "('k, 'v) dict \<Rightarrow> 'k \<Rightarrow> 'v option" where
  "dict_get d k = map_of d k"

text \<open>\<open>d[k] = v\<close>: an existing key keeps its position, a new key goes to the end.\<close>

fun dict_set :: "('k, 'v) dict \<Rightarrow> 'k \<Rightarrow> 'v \<Rightarrow> ('k, 'v) dict" where
  "dict_set [] k v = [(k, v)]"
| "dict_set ((k', v') # d) k v =
     (if k' = k then (k', v) # d else (k', v') # dict_set d k v)"

record userdata =
  PlayCount :: int

record item =
  item_Id :: string
  item_Name :: string
  AlbumArtist :: "string option"
  Artists :: "string list"
  RunTimeTicks :: "int option"
  UserData :: "(string, userdata) dict"

record user =
  user_Id :: string
  user_Name :: string

section \<open>Python built-ins used by the aggregation\<close>

text \<open>Evaluating a function that may raise on each element in turn: the first error wins.\<close>

fun map_err :: "('a \<Rightarrow> py_error + 'b) \<Rightarrow> 'a list \<Rightarrow> py_error + 'b list" where
  "map_err f [] = Inr []"
| "map_err f (x # xs) =
     (case f x of
        Inl e \<Rightarrow> Inl e
      | Inr y \<Rightarrow> (case map_err f xs of Inl e \<Rightarrow> Inl e | Inr ys \<Rightarrow> Inr (y # ys)))"

text \<open>
  \<open>sorted(xs, key=f, reverse=True)\<close>. CPython first calls the key function on every
  element, in order (so a raising key aborts the sort, also for lists of length 0 or 1),
  then sorts the (key, value) pairs by key with a stable sort; with \<open>reverse=True\<close> the
  order is descending and elements with equal keys still keep their input order. The
  sorting itself is modelled by a stable insertion into a descending list.
\<close>

fun insert_desc :: "int \<times> 'a \<Rightarrow> (int \<times> 'a) list \<Rightarrow> (int \<times> 'a) list" where
  "insert_desc x [] = [x]"
| "insert_desc x (y # ys) =
     (if fst y \<le> fst x then x # y # ys else y # insert_desc x ys)"

definition sort_desc :: "(int \<times> 'a) list \<Rightarrow> (int \<times> 'a) list" where
  "sort_desc kvs = foldr insert_desc kvs []"

definition py_sorted_reverse :: "('a \<Rightarrow> py_error + int) \<Rightarrow> 'a list \<Rightarrow> py_error + 'a list" where
  "py_sorted_reverse key xs =
     (case map_err key xs of
        Inl e \<Rightarrow> Inl e
      | Inr ks \<Rightarrow> Inr (map snd (sort_desc (zip ks xs))))"

text \<open>\<open>xs[:n]\<close>: a negative bound counts from the end of the list.\<close>

definition py_slice_to :: "int \<Rightarrow> 'a list \<Rightarrow> 'a list" where
  "py_slice_to n xs =
     (if n < 0 then take (nat (int (length xs) + n)) xs else take (nat n) xs)"

section \<open>Aggregation (lines 166-190)\<close>

text \<open>\<open>x["UserData"][user]["PlayCount"]\<close>: a missing user entry raises \<open>KeyError\<close>.\<close>

definition play_count :: "string \<Rightarrow> item \<Rightarrow> py_error + int" where
  "play_count u it =
     (case dict_get (UserData it) u of
        None \<Rightarrow> Inl (KeyError u)
      | Some ud \<Rightarrow> Inr (PlayCount ud))"

text \<open>\<open>{user["Name"]: v for user in users}\<close> (lines 167, 174, 187).\<close>

definition init_dict :: "user list \<Rightarrow> 'v \<Rightarrow> (string, 'v) dict" where
  "init_dict us v = foldl (\<lambda>d u. dict_set d (user_Name u) v) [] us"

text \<open>
  A loop \<open>for k, v in d.items()\<close> whose body replaces the value of the current key and
  may raise.
\<close>

fun for_items :: "('k \<Rightarrow> 'v \<Rightarrow> py_error + 'v) \<Rightarrow> ('k, 'v) dict \<Rightarrow> py_error + ('k, 'v) dict" where
  "for_items f [] = Inr []"
| "for_items f ((k, v) # d) =
     (case f k v of
        Inl e \<Rightarrow> Inl e
      | Inr v' \<Rightarrow> (case for_items f d of Inl e \<Rightarrow> Inl e | Inr d' \<Rightarrow> Inr ((k, v') # d')))"

text \<open>Line 171, the body of the loop over the users.\<close>

definition top_songs :: "item list \<Rightarrow> int \<Rightarrow> string \<Rightarrow> item list \<Rightarrow> py_error + item list" where
  "top_songs item_data num_top_songs u songlist =
     (case py_sorted_reverse (play_count u) item_data of
        Inl e \<Rightarrow> Inl e
      | Inr s \<Rightarrow> Inr (songlist @ py_slice_to num_top_songs s))"

text \<open>Lines 167-171.\<close>

definition find_songs :: "item list \<Rightarrow> user list \<Rightarrow> int \<Rightarrow> py_error + (string, item list) dict" where
  "find_songs item_data us num_top_songs =
     for_items (top_songs item_data num_top_songs) (init_dict us [])"

text \<open>Lines 180-183: \<open>artists[item_artist] += c\<close>, or a new entry at the end.\<close>

definition add_plays :: "(string, int) dict \<Rightarrow> string \<Rightarrow> int \<Rightarrow> (string, int) dict" where
  "add_plays artists item_artist c =
     (case dict_get artists item_artist of
        Some t \<Rightarrow> dict_set artists item_artist (t + c)
      | None \<Rightarrow> dict_set artists item_artist c)"

text \<open>
  Lines 179-183, the loop over one item's artist list. The play count is looked up once
  per listed artist, so an item with an empty artist list is never looked up here.
\<close>

fun count_artists :: "string \<Rightarrow> item \<Rightarrow> string list \<Rightarrow> (string, int) dict \<Rightarrow> py_error + (string, int) dict" where
  "count_artists u it [] artists = Inr artists"
| "count_artists u it (item_artist # rest) artists =
     (case play_count u it of
        Inl e \<Rightarrow> Inl e
      | Inr c \<Rightarrow> count_artists u it rest (add_plays artists item_artist c))"

text \<open>Lines 178-183, the loop over the items.\<close>

fun bake :: "string \<Rightarrow> item list \<Rightarrow> (string, int) dict \<Rightarrow> py_error + (string, int) dict" where
  "bake u [] artists = Inr artists"
| "bake u (it # its) artists =
     (case count_artists u it (Artists it) artists of
        Inl e \<Rightarrow> Inl e
      | Inr artists' \<Rightarrow> bake u its artists')"

text \<open>Lines 177-184, the body of the loop over the users; the dictionary starts empty.\<close>

definition top_artists :: "item list \<Rightarrow> int \<Rightarrow> string \<Rightarrow> (string \<times> int) list \<Rightarrow> py_error + (string \<times> int) list" where
  "top_artists item_data num_top_artists u artistlist =
     (case bake u item_data [] of
        Inl e \<Rightarrow> Inl e
      | Inr artists \<Rightarrow>
          (case py_sorted_reverse (\<lambda>x. Inr (snd x)) artists of
             Inl e \<Rightarrow> Inl e
           | Inr s \<Rightarrow> Inr (artistlist @ py_slice_to num_top_artists s)))"

text \<open>Lines 174-184.\<close>

definition find_artists :: "item list \<Rightarrow> user list \<Rightarrow> int \<Rightarrow> py_error + (string, (string \<times> int) list) dict" where
  "find_artists item_data us num_top_artists =
     for_items (top_artists item_data num_top_artists) (init_dict us [])"

text \<open>
  An integer that meets a float in an arithmetic operation is converted to a double
  first. The conversion rounds to 53 significant bits, to even on a tie, and raises
  \<open>OverflowError\<close> if the rounded value is beyond the largest double, which is the case
  from \<open>2 ^ 1024 - 2 ^ 970\<close> on. The model keeps the exact value: the rounding of doubles
  is not modelled, here or in the operations on floats, which do not raise (beyond the
  range they give an infinity).
\<close>

definition fits_double :: "int \<Rightarrow> bool" where
  "fits_double n = (\<bar>n\<bar> < 2 ^ 1024 - 2 ^ 970)"

definition float_of_int :: "int \<Rightarrow> py_error + rat" where
  "float_of_int n = (if fits_double n then Inr (of_int n) else Inl OverflowError)"

text \<open>
  Line 190, for one item: \<open>minutes + (item["RunTimeTicks"] / 6e7) * play_count\<close>. The
  ticks are looked up and converted for the division before the play count is looked up
  and converted for the product. The value is computed in exact rational arithmetic; it
  is the float of the source wherever the quotient, the product and the sum are doubles
  (for instance when all of them are integers below \<open>2 ^ 53\<close>).
\<close>

definition add_item_minutes :: "string \<Rightarrow> item \<Rightarrow> rat \<Rightarrow> py_error + rat" where
  "add_item_minutes u it minutes =
     (case RunTimeTicks it of
        None \<Rightarrow> Inl (KeyError ''RunTimeTicks'')
      | Some ticks \<Rightarrow>
          (case float_of_int ticks of
             Inl e \<Rightarrow> Inl e
           | Inr t \<Rightarrow>
               (case play_count u it of
                  Inl e \<Rightarrow> Inl e
                | Inr c \<Rightarrow>
                    (case float_of_int c of
                       Inl e \<Rightarrow> Inl e
                     | Inr p \<Rightarrow> Inr (minutes + (t / 60000000) * p)))))"

text \<open>Lines 189-190, the loop over the items for one user.\<close>

fun add_minutes :: "string \<Rightarrow> item list \<Rightarrow> rat \<Rightarrow> py_error + rat" where
  "add_minutes u [] minutes = Inr minutes"
| "add_minutes u (it # its) minutes =
     (case add_item_minutes u it minutes of
        Inl e \<Rightarrow> Inl e
      | Inr minutes' \<Rightarrow> add_minutes u its minutes')"

text \<open>Lines 187-190.\<close>

definition find_minutes :: "item list \<Rightarrow> user list \<Rightarrow> py_error + (string, rat) dict" where
  "find_minutes item_data us = for_items (\<lambda>u minutes. add_minutes u item_data minutes) (init_dict us 0)"

text \<open>
  The local variables of \<open>generate_jellyfin_recap\<close> that the aggregation reads or
  assigns. Lines 166-190 run the three loops one after the other; an exception in one of
  them ends the run.
\<close>

record state =
  item_data :: "item list"
  users :: "user list"
  most_listened_songs :: "(string, item list) dict"
  most_listened_artists :: "(string, (string \<times> int) list) dict"
  minutes_listened :: "(string, rat) dict"

definition aggregate :: "int \<Rightarrow> int \<Rightarrow> state \<Rightarrow> py_error + state" where
  "aggregate num_top_songs num_top_artists s =
     (case find_songs (item_data s) (users s) num_top_songs of
        Inl e \<Rightarrow> Inl e
      | Inr songs \<Rightarrow>
          (case find_artists (item_data s) (users s) num_top_artists of
             Inl e \<Rightarrow> Inl e
           | Inr artists \<Rightarrow>
               (case find_minutes (item_data s) (users s) of
                  Inl e \<Rightarrow> Inl e
                | Inr minutes \<Rightarrow>
                    Inr (s\<lparr>most_listened_songs := songs,
                           most_listened_artists := artists,
                           minutes_listened := minutes\<rparr>))))"

text \<open>The state in which line 166 is reached.\<close>

definition start :: "item list \<Rightarrow> user list \<Rightarrow> state" where
  "start its us =
     \<lparr>item_data = its, users = us, most_listened_songs = [],
      most_listened_artists = [], minutes_listened = []\<rparr>"

section \<open>Debug print, cover images and documents (lines 192-270)\<close>

text \<open>\<open>d[k]\<close> on a dictionary and \<open>xs[i]\<close> on a list, for an index \<open>i \<ge> 0\<close>.\<close>

definition dict_index :: "(string, 'v) dict \<Rightarrow> string \<Rightarrow> py_error + 'v" where
  "dict_index d k = (case dict_get d k of None \<Rightarrow> Inl (KeyError k) | Some v \<Rightarrow> Inr v)"

definition list_index :: "'a list \<Rightarrow> nat \<Rightarrow> py_error + 'a" where
  "list_index xs i = (if i < length xs then Inr (xs ! i) else Inl IndexError)"

text \<open>
  Line 193 prints name and album artist of the top songs of the user called \<open>maf\<close>;
  lines 194 and 195 print two dictionaries and cannot raise.
\<close>

definition name_and_album_artist :: "item \<Rightarrow> py_error + string \<times> string" where
  "name_and_album_artist thing =
     (case AlbumArtist thing of
        None \<Rightarrow> Inl (KeyError ''AlbumArtist'')
      | Some a \<Rightarrow> Inr (item_Name thing, a))"

definition debug_print :: "state \<Rightarrow> py_error option" where
  "debug_print s =
     (case dict_index (most_listened_songs s) ''maf'' of
        Inl e \<Rightarrow> Some e
      | Inr things \<Rightarrow>
          (case map_err name_and_album_artist things of Inl e \<Rightarrow> Some e | Inr _ \<Rightarrow> None))"

text \<open>
  What a run leaves behind: the cover images stored under \<open>assets/\<close> (by item id) and
  the HTML documents (by file name). A document is the sequence of the pieces written to
  it; the constant markup is abbreviated to \<open>Head\<close>, \<open>TableOpen\<close>, \<open>RowOpen\<close>,
  \<open>RowClose\<close>, \<open>TableClose\<close> and \<open>Tail\<close>, and each formatted piece carries the
  values it is formatted from. A document whose writing raised stays on disk with the
  pieces written so far.
\<close>

datatype chunk =
    Head
  | Cover string
  | TableOpen
  | RowOpen
  | ArtistCell nat string
  | SongCell nat string
  | RowClose
  | TableClose
  | Minutes rat
  | Tail

record world =
  images :: "string list"
  documents :: "(string \<times> chunk list) list"

text \<open>
  \<open>get_item_image\<close> (lines 7-33): the image is stored when the server answers with
  success (the first argument tells for which item ids it does), else the call raises.
\<close>

definition get_item_image :: "(string \<Rightarrow> bool) \<Rightarrow> string \<Rightarrow> world \<Rightarrow> py_error option \<times> world" where
  "get_item_image ok item_id w =
     (if ok item_id then (None, w\<lparr>images := images w @ [item_id]\<rparr>)
      else (Some RequestFailed, w))"

text \<open>Lines 197-198, over the keys of \<open>most_listened_songs\<close>.\<close>

fun fetch_images :: "(string \<Rightarrow> bool) \<Rightarrow> state \<Rightarrow> string list \<Rightarrow> world \<Rightarrow> py_error option \<times> world" where
  "fetch_images ok s [] w = (None, w)"
| "fetch_images ok s (u # rest) w =
     (case dict_index (most_listened_songs s) u of
        Inl e \<Rightarrow> (Some e, w)
      | Inr songlist \<Rightarrow>
          (case list_index songlist 0 of
             Inl e \<Rightarrow> (Some e, w)
           | Inr first \<Rightarrow>
               (case get_item_image ok (item_Id first) w of
                  (Some e, w') \<Rightarrow> (Some e, w')
                | (None, w') \<Rightarrow> fetch_images ok s rest w')))"

text \<open>
  Lines 258-262, over the indices of \<open>range(min(num_top_songs, num_top_artists))\<close>. Each
  piece is written as soon as its text is built, so an index outside a list raises after
  the pieces before it have been written.
\<close>

fun write_rows :: "state \<Rightarrow> string \<Rightarrow> nat list \<Rightarrow> chunk list \<Rightarrow> py_error option \<times> chunk list" where
  "write_rows s u [] out = (None, out)"
| "write_rows s u (i # rest) out =
     (case dict_index (most_listened_artists s) u of
        Inl e \<Rightarrow> (Some e, out @ [RowOpen])
      | Inr artistlist \<Rightarrow>
          (case list_index artistlist i of
             Inl e \<Rightarrow> (Some e, out @ [RowOpen])
           | Inr artist \<Rightarrow>
               (case dict_index (most_listened_songs s) u of
                  Inl e \<Rightarrow> (Some e, out @ [RowOpen, ArtistCell (i + 1) (fst artist)])
                | Inr songlist \<Rightarrow>
                    (case list_index songlist i of
                       Inl e \<Rightarrow> (Some e, out @ [RowOpen, ArtistCell (i + 1) (fst artist)])
                     | Inr song \<Rightarrow>
                         write_rows s u rest
                           (out @ [RowOpen, ArtistCell (i + 1) (fst artist),
                                   SongCell (i + 1) (item_Name song), RowClose])))))"

text \<open>Lines 203-270, the pieces written to one user's document.\<close>

definition write_document :: "int \<Rightarrow> int \<Rightarrow> state \<Rightarrow> string \<Rightarrow> py_error option \<times> chunk list" where
  "write_document num_top_songs num_top_artists s u =
     (case dict_index (most_listened_songs s) u of
        Inl e \<Rightarrow> (Some e, [Head])
      | Inr songlist \<Rightarrow>
          (case list_index songlist 0 of
             Inl e \<Rightarrow> (Some e, [Head])
           | Inr first \<Rightarrow>
               (case write_rows s u [0..<nat (min num_top_songs num_top_artists)]
                       [Head, Cover (item_Id first), TableOpen] of
                  (Some e, out) \<Rightarrow> (Some e, out)
                | (None, out) \<Rightarrow>
                    (case dict_index (minutes_listened s) u of
                       Inl e \<Rightarrow> (Some e, out @ [TableClose])
                     | Inr minutes \<Rightarrow> (None, out @ [TableClose, Minutes minutes, Tail])))))"

text \<open>Lines 200-270, over the keys of \<open>most_listened_songs\<close>.\<close>

fun write_documents :: "int \<Rightarrow> int \<Rightarrow> state \<Rightarrow> string list \<Rightarrow> world \<Rightarrow> py_error option \<times> world" where
  "write_documents n m s [] w = (None, w)"
| "write_documents n m s (u # rest) w =
     (case write_document n m s u of
        (Some e, out) \<Rightarrow>
          (Some e, w\<lparr>documents := documents w @ [(u @ ''_jellyfin_wrapped.html'', out)]\<rparr>)
      | (None, out) \<Rightarrow>
          write_documents n m s rest
            (w\<lparr>documents := documents w @ [(u @ ''_jellyfin_wrapped.html'', out)]\<rparr>))"

text \<open>Lines 166-270: everything after the items have been given their user data.\<close>

definition recap :: "(string \<Rightarrow> bool) \<Rightarrow> int \<Rightarrow> int \<Rightarrow> item list \<Rightarrow> user list \<Rightarrow> py_error option \<times> world" where
  "recap image_ok num_top_songs num_top_artists its us =
     (case aggregate num_top_songs num_top_artists (start its us) of
        Inl e \<Rightarrow> (Some e, \<lparr>images = [], documents = []\<rparr>)
      | Inr s \<Rightarrow>
          (case debug_print s of
             Some e \<Rightarrow> (Some e, \<lparr>images = [], documents = []\<rparr>)
           | None \<Rightarrow>
               (case fetch_images image_ok s (map fst (most_listened_songs s))
                       \<lparr>images = [], documents = []\<rparr> of
                  (Some e, w) \<Rightarrow> (Some e, w)
                | (None, w) \<Rightarrow>
                    write_documents num_top_songs num_top_artists s
                      (map fst (most_listened_songs s)) w)))"

section \<open>Fetching (lines 139-156)\<close>

text \<open>
  The server as the script sees it: the answers to the four kinds of request, \<open>None\<close>
  where the response is not ok (the helper then raises).
\<close>

record server =
  audio_items :: "item list option"
  all_users :: "user list option"
  item_userdata :: "string \<Rightarrow> string \<Rightarrow> userdata option"
  item_image_ok :: "string \<Rightarrow> bool"

text \<open>Lines 152-155: the item's \<open>UserData\<close> starts empty and gets one entry per user.\<close>

fun add_userdata :: "server \<Rightarrow> item \<Rightarrow> user list \<Rightarrow> (string, userdata) dict \<Rightarrow> py_error + (string, userdata) dict" where
  "add_userdata srv it [] d = Inr d"
| "add_userdata srv it (u # us) d =
     (case item_userdata srv (item_Id it) (user_Id u) of
        None \<Rightarrow> Inl RequestFailed
      | Some ud \<Rightarrow> add_userdata srv it us (dict_set d (user_Name u) ud))"

definition with_userdata :: "server \<Rightarrow> user list \<Rightarrow> item \<Rightarrow> py_error + item" where
  "with_userdata srv us it =
     (case add_userdata srv it us [] of
        Inl e \<Rightarrow> Inl e
      | Inr d \<Rightarrow> Inr (it\<lparr>UserData := d\<rparr>))"

text \<open>
  The whole function. Its body reads the module-level name \<open>server_address\<close> (the
  parameter is spelled \<open>server_addres\<close>), which the script binds before the call; the
  model takes the server as it is given. The two JSON dumps (\<open>users.json\<close>,
  \<open>all_items.json\<close>) and the creation of the output directories are left out: no later
  line reads them.
\<close>

definition generate_jellyfin_recap :: "server \<Rightarrow> int \<Rightarrow> int \<Rightarrow> py_error option \<times> world" where
  "generate_jellyfin_recap srv num_top_songs num_top_artists =
     (case audio_items srv of
        None \<Rightarrow> (Some RequestFailed, \<lparr>images = [], documents = []\<rparr>)
      | Some raw \<Rightarrow>
          (case all_users srv of
             None \<Rightarrow> (Some RequestFailed, \<lparr>images = [], documents = []\<rparr>)
           | Some us \<Rightarrow>
               (case map_err (with_userdata srv us) raw of
                  Inl e \<Rightarrow> (Some e, \<lparr>images = [], documents = []\<rparr>)
                | Inr its \<Rightarrow> recap (item_image_ok srv) num_top_songs num_top_artists its us)))"

section \<open>The aggregation on an explicit store (lines 166-190)\<close>

text \<open>
  Lists and dictionaries are objects: a variable or a list element is a reference to
  one, and \<open>extend\<close>, \<open>d[k] = v\<close> and \<open>+=\<close> on an entry change the object they are
  applied to, for every holder of a reference. To tell what lines 166-190 change, the
  objects live in a store, each at an address of its own, and a new object takes the
  next free address. The objects are the item and user dictionaries (an item's artist
  list and user data are kept inside its dictionary, so a write to them would be a write
  to the item), the lists of references to them (\<open>item_data\<close>, \<open>users\<close>, the results of
  \<open>sorted\<close> and of the slice, the song lists), the lists of (artist, total) tuples, the
  dictionaries from user name to list, the dictionary \<open>artists\<close> and the dictionary
  \<open>minutes_listened\<close>. Numbers, strings and tuples cannot be changed and are values.
  Reading an object of another kind than the code expects is \<open>TypeError\<close>.
\<close>

type_synonym addr = nat

datatype obj =
    ItemObj item
  | UserObj user
  | ListObj "addr list"
  | PairsObj "(string \<times> int) list"
  | ListsDict "(string, addr) dict"
  | TotalsDict "(string, int) dict"
  | MinutesDict "(string, rat) dict"

record store =
  cells :: "addr \<Rightarrow> obj option"
  next_free :: addr

text \<open>A new object, and a change of the object at an address.\<close>

definition new :: "obj \<Rightarrow> store \<Rightarrow> addr \<times> store" where
  "new ob h =
     (next_free h, h\<lparr>cells := (cells h)(next_free h \<mapsto> ob), next_free := Suc (next_free h)\<rparr>)"

definition put :: "addr \<Rightarrow> obj \<Rightarrow> store \<Rightarrow> store" where
  "put a ob h = h\<lparr>cells := (cells h)(a \<mapsto> ob)\<rparr>"

definition the_item :: "store \<Rightarrow> addr \<Rightarrow> py_error + item" where
  "the_item h a = (case cells h a of Some (ItemObj it) \<Rightarrow> Inr it | _ \<Rightarrow> Inl TypeError)"

definition the_user :: "store \<Rightarrow> addr \<Rightarrow> py_error + user" where
  "the_user h a = (case cells h a of Some (UserObj u) \<Rightarrow> Inr u | _ \<Rightarrow> Inl TypeError)"

definition the_list :: "store \<Rightarrow> addr \<Rightarrow> py_error + addr list" where
  "the_list h a = (case cells h a of Some (ListObj rs) \<Rightarrow> Inr rs | _ \<Rightarrow> Inl TypeError)"

definition the_pairs :: "store \<Rightarrow> addr \<Rightarrow> py_error + (string \<times> int) list" where
  "the_pairs h a = (case cells h a of Some (PairsObj ps) \<Rightarrow> Inr ps | _ \<Rightarrow> Inl TypeError)"

definition the_lists_dict :: "store \<Rightarrow> addr \<Rightarrow> py_error + (string, addr) dict" where
  "the_lists_dict h a = (case cells h a of Some (ListsDict d) \<Rightarrow> Inr d | _ \<Rightarrow> Inl TypeError)"

definition the_totals :: "store \<Rightarrow> addr \<Rightarrow> py_error + (string, int) dict" where
  "the_totals h a = (case cells h a of Some (TotalsDict d) \<Rightarrow> Inr d | _ \<Rightarrow> Inl TypeError)"

definition the_minutes :: "store \<Rightarrow> addr \<Rightarrow> py_error + (string, rat) dict" where
  "the_minutes h a = (case cells h a of Some (MinutesDict d) \<Rightarrow> Inr d | _ \<Rightarrow> Inl TypeError)"

text \<open>
  \<open>{user["Name"]: [] for user in users}\<close> (lines 167, 174): a new empty list for each
  user of the list. The dictionary that holds them becomes an object of the store when
  the comprehension is done: nothing refers to it before.
\<close>

fun new_lists :: "obj \<Rightarrow> addr list \<Rightarrow> (string, addr) dict \<Rightarrow> store \<Rightarrow> py_error + (string, addr) dict \<times> store" where
  "new_lists ob [] d h = Inr (d, h)"
| "new_lists ob (r # rs) d h =
     (case the_user h r of
        Inl e \<Rightarrow> Inl e
      | Inr u \<Rightarrow> (case new ob h of (a, h') \<Rightarrow> new_lists ob rs (dict_set d (user_Name u) a) h'))"

definition new_lists_dict :: "obj \<Rightarrow> addr \<Rightarrow> store \<Rightarrow> py_error + addr \<times> store" where
  "new_lists_dict ob users_ref h =
     (case the_list h users_ref of
        Inl e \<Rightarrow> Inl e
      | Inr rs \<Rightarrow>
          (case new_lists ob rs [] h of
             Inl e \<Rightarrow> Inl e
           | Inr (d, h') \<Rightarrow> Inr (new (ListsDict d) h')))"

text \<open>A loop over the entries of a dictionary whose body changes the store.\<close>

fun for_entries :: "('k \<Rightarrow> 'v \<Rightarrow> store \<Rightarrow> py_error + store) \<Rightarrow> ('k \<times> 'v) list \<Rightarrow> store \<Rightarrow> py_error + store" where
  "for_entries f [] h = Inr h"
| "for_entries f ((k, v) # d) h =
     (case f k v h of Inl e \<Rightarrow> Inl e | Inr h' \<Rightarrow> for_entries f d h')"

text \<open>The sort key of line 171 on a reference to an item.\<close>

definition item_play_count :: "store \<Rightarrow> string \<Rightarrow> addr \<Rightarrow> py_error + int" where
  "item_play_count h u r = (case the_item h r of Inl e \<Rightarrow> Inl e | Inr it \<Rightarrow> play_count u it)"

text \<open>
  Line 171: \<open>sorted\<close> reads the list \<open>item_data\<close> and gives a new list, the slice gives
  another new list, and \<open>extend\<close> changes the list \<open>songlist\<close>.
\<close>

definition extend_top_songs :: "addr \<Rightarrow> int \<Rightarrow> string \<Rightarrow> addr \<Rightarrow> store \<Rightarrow> py_error + store" where
  "extend_top_songs item_data_ref num_top_songs u songlist h =
     (case the_list h item_data_ref of
        Inl e \<Rightarrow> Inl e
      | Inr rs \<Rightarrow>
          (case py_sorted_reverse (item_play_count h u) rs of
             Inl e \<Rightarrow> Inl e
           | Inr s \<Rightarrow>
               (case new (ListObj s) h of
                  (sorted_list, h1) \<Rightarrow>
                    (case new (ListObj (py_slice_to num_top_songs s)) h1 of
                       (slice, h2) \<Rightarrow>
                         (case the_list h2 songlist of
                            Inl e \<Rightarrow> Inl e
                          | Inr old \<Rightarrow>
                              Inr (put songlist (ListObj (old @ py_slice_to num_top_songs s)) h2))))))"

text \<open>Lines 167-171; the result is the reference held by \<open>most_listened_songs\<close>.\<close>

definition store_find_songs :: "addr \<Rightarrow> addr \<Rightarrow> int \<Rightarrow> store \<Rightarrow> py_error + addr \<times> store" where
  "store_find_songs item_data_ref users_ref num_top_songs h =
     (case new_lists_dict (ListObj []) users_ref h of
        Inl e \<Rightarrow> Inl e
      | Inr (songs, h1) \<Rightarrow>
          (case the_lists_dict h1 songs of
             Inl e \<Rightarrow> Inl e
           | Inr d \<Rightarrow>
               (case for_entries (extend_top_songs item_data_ref num_top_songs) d h1 of
                  Inl e \<Rightarrow> Inl e
                | Inr h2 \<Rightarrow> Inr (songs, h2))))"

text \<open>Lines 179-183 for the item at \<open>r\<close>: each step changes the dictionary \<open>artists\<close>.\<close>

fun store_count_artists :: "string \<Rightarrow> addr \<Rightarrow> addr \<Rightarrow> string list \<Rightarrow> store \<Rightarrow> py_error + store" where
  "store_count_artists u r artists [] h = Inr h"
| "store_count_artists u r artists (item_artist # rest) h =
     (case the_totals h artists of
        Inl e \<Rightarrow> Inl e
      | Inr d \<Rightarrow>
          (case item_play_count h u r of
             Inl e \<Rightarrow> Inl e
           | Inr c \<Rightarrow>
               store_count_artists u r artists rest
                 (put artists (TotalsDict (add_plays d item_artist c)) h)))"

text \<open>Lines 178-183, over the references of the list \<open>item_data\<close>.\<close>

fun store_bake :: "string \<Rightarrow> addr \<Rightarrow> addr list \<Rightarrow> store \<Rightarrow> py_error + store" where
  "store_bake u artists [] h = Inr h"
| "store_bake u artists (r # rs) h =
     (case the_item h r of
        Inl e \<Rightarrow> Inl e
      | Inr it \<Rightarrow>
          (case store_count_artists u r artists (Artists it) h of
             Inl e \<Rightarrow> Inl e
           | Inr h' \<Rightarrow> store_bake u artists rs h'))"

text \<open>
  Lines 177-184 for one user: \<open>artists = {}\<close> is a new dictionary in every pass of the
  loop; \<open>sorted\<close> and the slice give new lists, and \<open>extend\<close> changes \<open>artistlist\<close>.
\<close>

definition extend_top_artists :: "addr \<Rightarrow> int \<Rightarrow> string \<Rightarrow> addr \<Rightarrow> store \<Rightarrow> py_error + store" where
  "extend_top_artists item_data_ref num_top_artists u artistlist h =
     (case new (TotalsDict []) h of
        (artists, h1) \<Rightarrow>
          (case the_list h1 item_data_ref of
             Inl e \<Rightarrow> Inl e
           | Inr rs \<Rightarrow>
               (case store_bake u artists rs h1 of
                  Inl e \<Rightarrow> Inl e
                | Inr h2 \<Rightarrow>
                    (case the_totals h2 artists of
                       Inl e \<Rightarrow> Inl e
                     | Inr d \<Rightarrow>
                         (case py_sorted_reverse (\<lambda>x. Inr (snd x)) d of
                            Inl e \<Rightarrow> Inl e
                          | Inr s \<Rightarrow>
                              (case new (PairsObj s) h2 of
                                 (sorted_list, h3) \<Rightarrow>
                                   (case new (PairsObj (py_slice_to num_top_artists s)) h3 of
                                      (slice, h4) \<Rightarrow>
                                        (case the_pairs h4 artistlist of
                                           Inl e \<Rightarrow> Inl e
                                         | Inr old \<Rightarrow>
                                             Inr (put artistlist
                                                   (PairsObj (old @ py_slice_to num_top_artists s))
                                                   h4)))))))))"

text \<open>Lines 174-184; the result is the reference held by \<open>most_listened_artists\<close>.\<close>

definition store_find_artists :: "addr \<Rightarrow> addr \<Rightarrow> int \<Rightarrow> store \<Rightarrow> py_error + addr \<times> store" where
  "store_find_artists item_data_ref users_ref num_top_artists h =
     (case new_lists_dict (PairsObj []) users_ref h of
        Inl e \<Rightarrow> Inl e
      | Inr (artists, h1) \<Rightarrow>
          (case the_lists_dict h1 artists of
             Inl e \<Rightarrow> Inl e
           | Inr d \<Rightarrow>
               (case for_entries (extend_top_artists item_data_ref num_top_artists) d h1 of
                  Inl e \<Rightarrow> Inl e
                | Inr h2 \<Rightarrow> Inr (artists, h2))))"

text \<open>
  Lines 189-190 for one user, over the references of the list \<open>item_data\<close>: each step
  reads the user's entry of the dictionary \<open>minutes_listened\<close> and stores it anew.
\<close>

fun store_add_minutes :: "string \<Rightarrow> addr \<Rightarrow> addr list \<Rightarrow> store \<Rightarrow> py_error + store" where
  "store_add_minutes u minutes [] h = Inr h"
| "store_add_minutes u minutes (r # rs) h =
     (case the_minutes h minutes of
        Inl e \<Rightarrow> Inl e
      | Inr d \<Rightarrow>
          (case dict_index d u of
             Inl e \<Rightarrow> Inl e
           | Inr so_far \<Rightarrow>
               (case the_item h r of
                  Inl e \<Rightarrow> Inl e
                | Inr it \<Rightarrow>
                    (case add_item_minutes u it so_far of
                       Inl e \<Rightarrow> Inl e
                     | Inr v \<Rightarrow>
                         store_add_minutes u minutes rs
                           (put minutes (MinutesDict (dict_set d u v)) h)))))"

text \<open>Line 188-190, over the keys the dictionary has when the loop starts.\<close>

fun for_keys :: "(string \<Rightarrow> store \<Rightarrow> py_error + store) \<Rightarrow> string list \<Rightarrow> store \<Rightarrow> py_error + store" where
  "for_keys f [] h = Inr h"
| "for_keys f (k # ks) h = (case f k h of Inl e \<Rightarrow> Inl e | Inr h' \<Rightarrow> for_keys f ks h')"

definition minutes_of_user :: "addr \<Rightarrow> addr \<Rightarrow> string \<Rightarrow> store \<Rightarrow> py_error + store" where
  "minutes_of_user item_data_ref minutes u h =
     (case the_list h item_data_ref of
        Inl e \<Rightarrow> Inl e
      | Inr rs \<Rightarrow> store_add_minutes u minutes rs h)"

text \<open>
  Lines 187-190: \<open>{user["Name"]: 0 for user in users}\<close> is one new dictionary; the
  result is the reference held by \<open>minutes_listened\<close>.
\<close>

definition store_find_minutes :: "addr \<Rightarrow> addr \<Rightarrow> store \<Rightarrow> py_error + addr \<times> store" where
  "store_find_minutes item_data_ref users_ref h =
     (case the_list h users_ref of
        Inl e \<Rightarrow> Inl e
      | Inr qs \<Rightarrow>
          (case map_err (the_user h) qs of
             Inl e \<Rightarrow> Inl e
           | Inr us \<Rightarrow>
               (case new (MinutesDict (init_dict us 0)) h of
                  (minutes, h1) \<Rightarrow>
                    (case for_keys (minutes_of_user item_data_ref minutes)
                            (map fst (init_dict us (0::rat))) h1 of
                       Inl e \<Rightarrow> Inl e
                     | Inr h2 \<Rightarrow> Inr (minutes, h2)))))"

text \<open>
  Lines 166-190 on the store; the result are the references held by
  \<open>most_listened_songs\<close>, \<open>most_listened_artists\<close> and \<open>minutes_listened\<close>.
\<close>

definition store_aggregate :: "int \<Rightarrow> int \<Rightarrow> addr \<Rightarrow> addr \<Rightarrow> store \<Rightarrow> py_error + (addr \<times> addr \<times> addr) \<times> store" where
  "store_aggregate num_top_songs num_top_artists item_data_ref users_ref h =
     (case store_find_songs item_data_ref users_ref num_top_songs h of
        Inl e \<Rightarrow> Inl e
      | Inr (songs, h1) \<Rightarrow>
          (case store_find_artists item_data_ref users_ref num_top_artists h1 of
             Inl e \<Rightarrow> Inl e
           | Inr (artists, h2) \<Rightarrow>
               (case store_find_minutes item_data_ref users_ref h2 of
                  Inl e \<Rightarrow> Inl e
                | Inr (minutes, h3) \<Rightarrow> Inr ((songs, artists, minutes), h3))))"

text \<open>
  What a store holds: every address in use is below \<open>next_free\<close>; the items (users) that
  a list of references holds; and the dictionaries that the three result references
  stand for.
\<close>

definition wf_store :: "store \<Rightarrow> bool" where
  "wf_store h = (\<forall>a. next_free h \<le> a \<longrightarrow> cells h a = None)"

definition item_at :: "store \<Rightarrow> addr \<Rightarrow> item option" where
  "item_at h r = (case cells h r of Some (ItemObj it) \<Rightarrow> Some it | _ \<Rightarrow> None)"

definition user_at :: "store \<Rightarrow> addr \<Rightarrow> user option" where
  "user_at h r = (case cells h r of Some (UserObj u) \<Rightarrow> Some u | _ \<Rightarrow> None)"

definition view_items :: "store \<Rightarrow> addr \<Rightarrow> item list option" where
  "view_items h l =
     (case cells h l of Some (ListObj rs) \<Rightarrow> those (map (item_at h) rs) | _ \<Rightarrow> None)"

definition view_users :: "store \<Rightarrow> addr \<Rightarrow> user list option" where
  "view_users h l =
     (case cells h l of Some (ListObj rs) \<Rightarrow> those (map (user_at h) rs) | _ \<Rightarrow> None)"

definition view_songs :: "store \<Rightarrow> addr \<Rightarrow> (string, item list) dict option" where
  "view_songs h a =
     (case cells h a of
        Some (ListsDict d) \<Rightarrow> those (map (\<lambda>(k, l). map_option (Pair k) (view_items h l)) d)
      | _ \<Rightarrow> None)"

definition pairs_at :: "store \<Rightarrow> addr \<Rightarrow> (string \<times> int) list option" where
  "pairs_at h l = (case cells h l of Some (PairsObj ps) \<Rightarrow> Some ps | _ \<Rightarrow> None)"

definition view_artists :: "store \<Rightarrow> addr \<Rightarrow> (string, (string \<times> int) list) dict option" where
  "view_artists h a =
     (case cells h a of
        Some (ListsDict d) \<Rightarrow> those (map (\<lambda>(k, l). map_option (Pair k) (pairs_at h l)) d)
      | _ \<Rightarrow> None)"

definition view_minutes :: "store \<Rightarrow> addr \<Rightarrow> (string, rat) dict option" where
  "view_minutes h a = (case cells h a of Some (MinutesDict d) \<Rightarrow> Some d | _ \<Rightarrow> None)"

text \<open>The addresses of the lists that a dictionary from user name to list holds.\<close>

definition lists_of :: "store \<Rightarrow> addr \<Rightarrow> addr list" where
  "lists_of h a = (case cells h a of Some (ListsDict d) \<Rightarrow> map snd d | _ \<Rightarrow> [])"

text \<open>
  The objects that make up the results of the aggregation: the dictionary
  \<open>most_listened_songs\<close> and the song lists it holds, the dictionary
  \<open>most_listened_artists\<close> and the artist lists it holds, and the dictionary
  \<open>minutes_listened\<close>.
\<close>

definition result_objects :: "store \<Rightarrow> addr \<Rightarrow> addr \<Rightarrow> addr \<Rightarrow> addr list" where
  "result_objects h songs artists minutes =
     (songs # lists_of h songs) @ (artists # lists_of h artists) @ [minutes]"

section \<open>What the claims speak of\<close>

text \<open>A user's play count of an item, where the item has an entry for the user.\<close>

definition has_entry :: "string \<Rightarrow> item \<Rightarrow> bool" where
  "has_entry u it = (dict_get (UserData it) u \<noteq> None)"

definition count_of :: "string \<Rightarrow> item \<Rightarrow> int" where
  "count_of u it = (case dict_get (UserData it) u of None \<Rightarrow> 0 | Some ud \<Rightarrow> PlayCount ud)"

text \<open>
  An item on which line 190 does not raise for a user: it has a user entry and its ticks,
  and the ticks and the play count are in the range of the doubles.
\<close>

definition has_runtime :: "item \<Rightarrow> bool" where
  "has_runtime it = (case RunTimeTicks it of None \<Rightarrow> False | Some ticks \<Rightarrow> fits_double ticks)"

definition ticks_of :: "item \<Rightarrow> int" where
  "ticks_of it = (case RunTimeTicks it of None \<Rightarrow> 0 | Some ticks \<Rightarrow> ticks)"

definition countable :: "string \<Rightarrow> item \<Rightarrow> bool" where
  "countable u it = (has_entry u it \<and> fits_double (count_of u it) \<and> has_runtime it)"

text \<open>
  The artist names in the order in which the loops of lines 178-179 meet them first, and
  the number of times an item's artist list names an artist.
\<close>

fun first_seen :: "'a list \<Rightarrow> 'a list" where
  "first_seen [] = []"
| "first_seen (x # xs) = x # filter (\<lambda>y. y \<noteq> x) (first_seen xs)"

definition credited :: "item list \<Rightarrow> string list" where
  "credited its = concat (map Artists its)"

definition credits :: "string \<Rightarrow> item \<Rightarrow> int" where
  "credits a it = int (count_list (Artists it) a)"

text \<open>
  One pair for each time an item's artist list names an artist, in the order of the loops
  of lines 178-179, with the user's play count of that item.
\<close>

definition artist_plays :: "string \<Rightarrow> item list \<Rightarrow> (string \<times> int) list" where
  "artist_plays u its = concat (map (\<lambda>it. map (\<lambda>a. (a, count_of u it)) (Artists it)) its)"

section \<open>Example inputs\<close>

text \<open>An item and a user as the server would describe them, for runs on concrete inputs.\<close>

definition song :: "string \<Rightarrow> string list \<Rightarrow> int \<Rightarrow> (string \<times> int) list \<Rightarrow> item" where
  "song ident artists ticks plays =
     \<lparr>item_Id = ident, item_Name = ident, AlbumArtist = Some ''various'', Artists = artists,
      RunTimeTicks = Some ticks, UserData = map (\<lambda>(u, c). (u, \<lparr>PlayCount = c\<rparr>)) plays\<rparr>"

definition person :: "string \<Rightarrow> user" where
  "person name = \<lparr>user_Id = name, user_Name = name\<rparr>"

text \<open>
  A store as line 166 finds it: two items, the list \<open>item_data\<close> at address 2, two
  users, and the list \<open>users\<close> at address 5.
\<close>

definition example_store :: store where
  "example_store =
     \<lparr>cells = [0 \<mapsto> ItemObj (song ''S1'' [''A''] 120000000 [(''ann'', 1), (''bo'', 0)]),
               1 \<mapsto> ItemObj (song ''S2'' [''B''] 60000000 [(''ann'', 0), (''bo'', 3)]),
               2 \<mapsto> ListObj [0, 1],
               3 \<mapsto> UserObj (person ''ann''),
               4 \<mapsto> UserObj (person ''bo''),
               5 \<mapsto> ListObj [3, 4]],
      next_free = 6\<rparr>"

section \<open>Lemmas on the built-ins\<close>

lemma insert_desc_insort: "insert_desc x ys = insort_key (\<lambda>p. - fst p) x ys"
  by (induction ys) auto

lemma sort_desc_sort_key: "sort_desc kvs = sort_key (\<lambda>p. - fst p) kvs"
  by (induction kvs) (simp_all add: sort_desc_def insert_desc_insort)

lemma map_err_total: "(\<And>x. x \<in> set xs \<Longrightarrow> f x = Inr (g x)) \<Longrightarrow> map_err f xs = Inr (map g xs)"
  by (induction xs) simp_all

lemma play_count_entry: "has_entry u it \<Longrightarrow> play_count u it = Inr (count_of u it)"
  by (auto simp: has_entry_def play_count_def count_of_def)

lemma insort_key_map: "insort_key f (h x) (map h ys) = map h (insort_key (\<lambda>a. f (h a)) x ys)"
  by (induction ys) simp_all

lemma sort_key_map: "sort_key f (map h xs) = map h (sort_key (\<lambda>a. f (h a)) xs)"
  by (induction xs) (simp_all add: insort_key_map)

lemma py_sorted_reverse_total:
  assumes "\<And>x. x \<in> set xs \<Longrightarrow> key x = Inr (g x)"
  shows "py_sorted_reverse key xs = Inr (sort_key (\<lambda>x. - g x) xs)"
proof -
  have "zip (map g xs) xs = map (\<lambda>x. (g x, x)) xs"
    by (induction xs) simp_all
  then have "map snd (sort_desc (zip (map g xs) xs)) = sort_key (\<lambda>x. - g x) xs"
    by (simp add: sort_desc_sort_key sort_key_map comp_def)
  then show ?thesis
    using map_err_total [of xs key g] assms by (simp add: py_sorted_reverse_def)
qed

lemma dict_get_set: "dict_get (dict_set d k v) k' = (if k' = k then Some v else dict_get d k')"
  by (induction d) (auto simp: dict_get_def)

lemma for_items_get:
  "for_items f d = Inr d' \<Longrightarrow> distinct (map fst d) \<Longrightarrow> dict_get d k = Some v \<Longrightarrow>
   \<exists>v'. f k v = Inr v' \<and> dict_get d' k = Some v'"
proof (induction d arbitrary: d')
  case Nil
  then show ?case by (simp add: dict_get_def)
next
  case (Cons p d)
  obtain k0 v0 where p: "p = (k0, v0)" by (cases p)
  from Cons.prems(1) p obtain v0' d0' where
    f0: "f k0 v0 = Inr v0'" and r: "for_items f d = Inr d0'" and d': "d' = (k0, v0') # d0'"
    by (auto split: sum.splits)
  show ?case
  proof (cases "k = k0")
    case True
    with Cons.prems(3) p have "v = v0" by (simp add: dict_get_def)
    with True f0 d' show ?thesis by (simp add: dict_get_def)
  next
    case False
    with Cons.prems p have "distinct (map fst d)" "dict_get d k = Some v"
      by (simp_all add: dict_get_def)
    from Cons.IH [OF r this] False d' show ?thesis by (simp add: dict_get_def)
  qed
qed

lemma keys_dict_set: "map fst (dict_set d k v) = (if k \<in> set (map fst d) then map fst d else map fst d @ [k])"
proof (induction d)
  case Nil
  then show ?case by simp
next
  case (Cons p d)
  obtain k0 v0 where "p = (k0, v0)" by (cases p)
  with Cons show ?case by (cases "k0 = k") simp_all
qed

lemma distinct_dict_set: "distinct (map fst d) \<Longrightarrow> distinct (map fst (dict_set d k v))"
  by (simp add: keys_dict_set)

lemma init_dict_aux:
  "distinct (map fst d) \<Longrightarrow> (\<forall>k \<in> fst ` set d. dict_get d k = Some v) \<Longrightarrow>
   distinct (map fst (foldl (\<lambda>d u. dict_set d (user_Name u) v) d us)) \<and>
   fst ` set (foldl (\<lambda>d u. dict_set d (user_Name u) v) d us) = fst ` set d \<union> user_Name ` set us \<and>
   (\<forall>k \<in> fst ` set d \<union> user_Name ` set us. dict_get (foldl (\<lambda>d u. dict_set d (user_Name u) v) d us) k = Some v)"
proof (induction us arbitrary: d)
  case Nil
  then show ?case by simp
next
  case (Cons u us)
  let ?d = "dict_set d (user_Name u) v"
  have 1: "distinct (map fst ?d)" using Cons.prems(1) by (rule distinct_dict_set)
  have 2: "fst ` set ?d = insert (user_Name u) (fst ` set d)"
  proof -
    have "set (map fst ?d) = insert (user_Name u) (set (map fst d))"
      by (simp only: keys_dict_set) auto
    then show ?thesis by simp
  qed
  have 3: "\<forall>k \<in> fst ` set ?d. dict_get ?d k = Some v"
    using Cons.prems(2) 2 by (simp add: dict_get_set)
  from Cons.IH [OF 1 3] 2 show ?case by simp
qed

lemma init_dict_props:
  "distinct (map fst (init_dict us v))"
  "u \<in> set us \<Longrightarrow> dict_get (init_dict us v) (user_Name u) = Some v"
  using init_dict_aux [of "[]" v us] by (simp_all add: init_dict_def)

lemma sorted_by_count:
  fixes g :: "'a \<Rightarrow> int"
  shows "mset (sort_key (\<lambda>x. - g x) xs) = mset xs"
    and "sorted_wrt (\<lambda>a b. g b \<le> g a) (sort_key (\<lambda>x. - g x) xs)"
    and "filter (\<lambda>x. g x = c) (sort_key (\<lambda>x. - g x) xs) = filter (\<lambda>x. g x = c) xs"
proof -
  show "mset (sort_key (\<lambda>x. - g x) xs) = mset xs" by simp
  have "sorted (map (\<lambda>x. - g x) (sort_key (\<lambda>x. - g x) xs))" by (rule sorted_sort_key)
  then show "sorted_wrt (\<lambda>a b. g b \<le> g a) (sort_key (\<lambda>x. - g x) xs)"
    by (simp add: sorted_wrt_map)
  have "filter (\<lambda>x. - g x = - c) (sort_key (\<lambda>x. - g x) xs) = filter (\<lambda>x. - g x = - c) xs"
    by (rule sort_key_stable)
  then show "filter (\<lambda>x. g x = c) (sort_key (\<lambda>x. - g x) xs) = filter (\<lambda>x. g x = c) xs"
    by simp
qed

text \<open>The three properties of a stable descending sort leave one list only.\<close>

lemma stable_sorted_unique:
  fixes g :: "'a \<Rightarrow> int"
  assumes "mset ys = mset xs"
    and "sorted_wrt (\<lambda>a b. g b \<le> g a) ys"
    and "\<And>c. filter (\<lambda>x. g x = c) ys = filter (\<lambda>x. g x = c) xs"
  shows "ys = sort_key (\<lambda>x. - g x) xs"
proof -
  have "sort_key (\<lambda>x. - g x) xs = ys"
  proof (rule properties_for_sort_key)
    show "mset ys = mset xs" by fact
    show "sorted (map (\<lambda>x. - g x) ys)"
      using assms(2) by (simp add: sorted_wrt_map)
    fix k
    have "filter (\<lambda>x. g x = g k) ys = filter (\<lambda>x. g x = g k) xs" by (rule assms(3))
    moreover have "(\<lambda>x. - g k = - g x) = (\<lambda>x. g x = g k)" by auto
    ultimately show "filter (\<lambda>x. - g k = - g x) ys = filter (\<lambda>x. - g k = - g x) xs"
      by simp
  qed
  then show ?thesis by simp
qed

section \<open>Top songs\<close>

text \<open>
  C1. Let \<open>u\<close> be a user of the user list, let every item have a play-count entry for
  \<open>u\<close>, and let \<open>num_top_songs\<close> be non-negative (the contract's domain). Then there is
  a rearrangement \<open>ys\<close> of the items that is in non-increasing order of \<open>u\<close>'s play
  count and keeps, for every play count, the items with that count in their input order
  (a stable sort: by \<open>stable_sorted_unique\<close> these properties determine \<open>ys\<close>), and the top songs computed for
  \<open>u\<close> in line 171 are the first \<open>num_top_songs\<close> elements of \<open>ys\<close>; whenever the loop
  over all users completes, this is the entry of \<open>u\<close> in \<open>most_listened_songs\<close>.
\<close>

theorem top_songs_stable_sorted:
  assumes u: "u \<in> set us"
    and entries: "\<forall>it \<in> set its. has_entry (user_Name u) it"
    and n: "0 \<le> n"
  shows "\<exists>ys. mset ys = mset its
           \<and> sorted_wrt (\<lambda>a b. count_of (user_Name u) b \<le> count_of (user_Name u) a) ys
           \<and> (\<forall>c. filter (\<lambda>it. count_of (user_Name u) it = c) ys
                  = filter (\<lambda>it. count_of (user_Name u) it = c) its)
           \<and> top_songs its n (user_Name u) [] = Inr (take (nat n) ys)
           \<and> (\<forall>d. find_songs its us n = Inr d
                  \<longrightarrow> dict_get d (user_Name u) = Some (take (nat n) ys))"
proof -
  let ?g = "count_of (user_Name u)"
  let ?ys = "sort_key (\<lambda>x. - ?g x) its"
  have srt: "py_sorted_reverse (play_count (user_Name u)) its = Inr ?ys"
    using entries by (intro py_sorted_reverse_total play_count_entry) simp
  have top: "top_songs its n (user_Name u) [] = Inr (take (nat n) ?ys)"
    using n by (simp add: top_songs_def srt py_slice_to_def)
  have whole: "dict_get d (user_Name u) = Some (take (nat n) ?ys)"
    if "find_songs its us n = Inr d" for d
  proof -
    from that have "for_items (top_songs its n) (init_dict us []) = Inr d"
      by (simp add: find_songs_def)
    from for_items_get [OF this init_dict_props(1) init_dict_props(2) [OF u]] top
    show ?thesis by simp
  qed
  from top whole sorted_by_count [where g = "?g" and xs = its] show ?thesis by blast
qed

text \<open>
  The theorem at two items that \<open>amy\<close> has played twice each, with one top song asked
  for: the item that comes first in the input is the top song.
\<close>

theorem top_songs_stable_sorted_witness:
  "person ''amy'' \<in> set [person ''amy'']
   \<and> has_entry (user_Name (person ''amy'')) (song ''a'' [''x''] 60000000 [(''amy'', 2)])
   \<and> has_entry (user_Name (person ''amy'')) (song ''b'' [''y''] 60000000 [(''amy'', 2)])
   \<and> (0::int) \<le> 1
   \<and> (\<exists>ys. mset ys = mset [song ''a'' [''x''] 60000000 [(''amy'', 2)], song ''b'' [''y''] 60000000 [(''amy'', 2)]]
         \<and> sorted_wrt (\<lambda>a b. count_of ''amy'' b \<le> count_of ''amy'' a) ys
         \<and> (\<forall>c. filter (\<lambda>it. count_of ''amy'' it = c) ys
                = filter (\<lambda>it. count_of ''amy'' it = c)
                    [song ''a'' [''x''] 60000000 [(''amy'', 2)], song ''b'' [''y''] 60000000 [(''amy'', 2)]])
         \<and> top_songs [song ''a'' [''x''] 60000000 [(''amy'', 2)], song ''b'' [''y''] 60000000 [(''amy'', 2)]]
              1 ''amy'' [] = Inr (take (nat 1) ys))
   \<and> find_songs [song ''a'' [''x''] 60000000 [(''amy'', 2)], song ''b'' [''y''] 60000000 [(''amy'', 2)]]
        [person ''amy''] 1 = Inr [(''amy'', [song ''a'' [''x''] 60000000 [(''amy'', 2)]])]"
proof -
  let ?its = "[song ''a'' [''x''] 60000000 [(''amy'', 2)], song ''b'' [''y''] 60000000 [(''amy'', 2)]]"
  have h: "\<forall>it \<in> set ?its. has_entry (user_Name (person ''amy'')) it"
    by (simp add: has_entry_def dict_get_def song_def person_def)
  have run: "find_songs ?its [person ''amy''] 1 = Inr [(''amy'', [song ''a'' [''x''] 60000000 [(''amy'', 2)]])]"
    by (simp add: find_songs_def init_dict_def top_songs_def py_sorted_reverse_def play_count_def
        dict_get_def sort_desc_def py_slice_to_def song_def person_def)
  have u: "person ''amy'' \<in> set [person ''amy'']" by simp
  have n: "(0::int) \<le> 1" by simp
  have nm: "user_Name (person ''amy'') = ''amy''" by (simp add: person_def)
  note top_songs_stable_sorted [OF u h n, unfolded nm]
  then have "\<exists>ys. mset ys = mset ?its
         \<and> sorted_wrt (\<lambda>a b. count_of ''amy'' b \<le> count_of ''amy'' a) ys
         \<and> (\<forall>c. filter (\<lambda>it. count_of ''amy'' it = c) ys = filter (\<lambda>it. count_of ''amy'' it = c) ?its)
         \<and> top_songs ?its 1 ''amy'' [] = Inr (take (nat 1) ys)"
    by blast
  with u h n run show ?thesis by simp
qed

lemma map_err_Inl: "map_err f xs = Inl e \<Longrightarrow> \<exists>x \<in> set xs. f x = Inl e"
  by (induction xs) (auto split: sum.splits)

lemma map_err_fails: "x \<in> set xs \<Longrightarrow> f x = Inl e \<Longrightarrow> \<exists>e'. map_err f xs = Inl e'"
  by (induction xs) (auto split: sum.splits)

lemma map_err_all:
  "(\<And>x. x \<in> set xs \<Longrightarrow> \<exists>y. f x = Inr y \<and> P y) \<Longrightarrow>
   \<exists>ys. map_err f xs = Inr ys \<and> (\<forall>y \<in> set ys. P y)"
proof (induction xs)
  case Nil
  then show ?case by simp
next
  case (Cons x xs)
  from Cons.prems [of x] obtain y where y: "f x = Inr y" "P y" by auto
  from Cons.IH Cons.prems obtain ys where ys: "map_err f xs = Inr ys" "\<forall>y \<in> set ys. P y"
    by auto
  from y ys show ?case by simp
qed

lemma for_items_keys: "for_items f d = Inr d' \<Longrightarrow> map fst d' = map fst d"
proof (induction d arbitrary: d')
  case Nil
  then show ?case by simp
next
  case (Cons p d)
  then show ?case by (cases p) (auto split: sum.splits)
qed

lemma for_items_Inl: "for_items f d = Inl e \<Longrightarrow> \<exists>(k, v) \<in> set d. f k v = Inl e"
proof (induction d)
  case Nil
  then show ?case by simp
next
  case (Cons p d)
  then show ?case by (cases p) (auto split: sum.splits)
qed

lemma for_items_fails: "(k, v) \<in> set d \<Longrightarrow> f k v = Inl e \<Longrightarrow> \<exists>e'. for_items f d = Inl e'"
proof (induction d)
  case Nil
  then show ?case by simp
next
  case (Cons p d)
  then show ?case by (cases p) (auto split: sum.splits)
qed

lemma for_items_total:
  "(\<And>k v. (k, v) \<in> set d \<Longrightarrow> \<exists>v'. f k v = Inr v') \<Longrightarrow> \<exists>d'. for_items f d = Inr d'"
proof (induction d)
  case Nil
  then show ?case by simp
next
  case (Cons p d)
  obtain k v where p: "p = (k, v)" by (cases p)
  from Cons.prems [of k v] p obtain v' where "f k v = Inr v'" by auto
  moreover from Cons.IH Cons.prems obtain d' where "for_items f d = Inr d'" by auto
  ultimately show ?case using p by simp
qed

lemma play_count_Inl: "play_count u it = Inl e \<Longrightarrow> e = KeyError u \<and> \<not> has_entry u it"
  by (auto simp: play_count_def has_entry_def split: option.splits)

lemma play_count_missing: "\<not> has_entry u it \<Longrightarrow> play_count u it = Inl (KeyError u)"
  by (auto simp: play_count_def has_entry_def split: option.splits)

lemma top_songs_Inl: "top_songs its n u songlist = Inl e \<Longrightarrow> e = KeyError u"
  by (auto simp: top_songs_def py_sorted_reverse_def split: sum.splits
      dest!: map_err_Inl play_count_Inl)

lemma top_songs_missing:
  assumes "it \<in> set its" "\<not> has_entry u it"
  shows "top_songs its n u songlist = Inl (KeyError u)"
proof -
  from map_err_fails [where f = "play_count u", OF assms(1) play_count_missing [OF assms(2)]]
  obtain e where "map_err (play_count u) its = Inl e" by blast
  then have "\<exists>e. top_songs its n u songlist = Inl e"
    by (simp add: top_songs_def py_sorted_reverse_def)
  then show ?thesis using top_songs_Inl by blast
qed

lemma init_dict_keys: "fst ` set (init_dict us v) = user_Name ` set us"
  using init_dict_aux [of "[]" v us] by (simp add: init_dict_def)

lemma dict_get_in: "dict_get d k = Some v \<Longrightarrow> (k, v) \<in> set d"
  by (simp add: dict_get_def map_of_SomeD)

section \<open>Missing statistics\<close>

text \<open>
  C4. If some item has no statistics entry for some user of the user list, the
  aggregation raises \<open>KeyError\<close>, for the name of a user who lacks an entry: no play
  count of zero is put in its place. (The sort of line 171 evaluates its key on every
  item, for every user, before anything else is computed.)
\<close>

theorem missing_entry_raises:
  assumes "\<exists>it \<in> set its. \<exists>u \<in> set us. \<not> has_entry (user_Name u) it"
  shows "\<exists>w \<in> set us. (\<exists>it \<in> set its. \<not> has_entry (user_Name w) it)
           \<and> aggregate n m (start its us) = Inl (KeyError (user_Name w))"
proof -
  from assms obtain it u where it: "it \<in> set its" and u: "u \<in> set us"
    and miss: "\<not> has_entry (user_Name u) it" by blast
  have "(user_Name u, []) \<in> set (init_dict us [])"
    using init_dict_props(2) [OF u] by (rule dict_get_in)
  from for_items_fails [where f = "top_songs its n", OF this top_songs_missing [OF it miss]]
  obtain e where e: "find_songs its us n = Inl e" by (auto simp: find_songs_def)
  then obtain k v where kv: "(k, v) \<in> set (init_dict us [])" "top_songs its n k v = Inl e"
    by (auto simp: find_songs_def dest!: for_items_Inl)
  from kv(1) have "k \<in> fst ` set (init_dict us ([]::item list))" by force
  then obtain w where w: "w \<in> set us" "k = user_Name w" by (auto simp: init_dict_keys)
  from kv(2) have ek: "e = KeyError k" by (rule top_songs_Inl)
  have "\<exists>it \<in> set its. \<not> has_entry k it"
  proof (rule ccontr)
    assume "\<not> ?thesis"
    then have "py_sorted_reverse (play_count k) its = Inr (sort_key (\<lambda>x. - count_of k x) its)"
      by (intro py_sorted_reverse_total play_count_entry) simp
    with kv(2) show False by (simp add: top_songs_def)
  qed
  with w ek e show ?thesis by (auto simp: aggregate_def start_def)
qed

text \<open>The theorem at one item with an entry for \<open>amy\<close> and none for \<open>bo\<close>.\<close>

theorem missing_entry_raises_witness:
  "(\<exists>it \<in> set [song ''a'' [''x''] 60000000 [(''amy'', 2)]].
      \<exists>u \<in> set [person ''amy'', person ''bo'']. \<not> has_entry (user_Name u) it)
   \<and> aggregate 5 5 (start [song ''a'' [''x''] 60000000 [(''amy'', 2)]] [person ''amy'', person ''bo''])
       = Inl (KeyError ''bo'')"
proof -
  have h: "\<exists>it \<in> set [song ''a'' [''x''] 60000000 [(''amy'', 2)]].
      \<exists>u \<in> set [person ''amy'', person ''bo'']. \<not> has_entry (user_Name u) it"
    by (simp add: has_entry_def dict_get_def song_def person_def)
  from missing_entry_raises [OF h, of 5 5]
  have "\<exists>k. aggregate 5 5 (start [song ''a'' [''x''] 60000000 [(''amy'', 2)]] [person ''amy'', person ''bo''])
       = Inl (KeyError k)" by blast
  moreover have "has_entry ''amy'' (song ''a'' [''x''] 60000000 [(''amy'', 2)])"
    by (simp add: has_entry_def dict_get_def song_def)
  ultimately have "aggregate 5 5 (start [song ''a'' [''x''] 60000000 [(''amy'', 2)]] [person ''amy'', person ''bo''])
       = Inl (KeyError ''bo'')"
    using missing_entry_raises [OF h, of 5 5] by (auto simp: person_def)
  with h show ?thesis by blast
qed

section \<open>Lemmas on the artist totals\<close>

lemma set_first_seen: "set (first_seen xs) = set xs"
  by (induction xs) auto

lemma distinct_first_seen: "distinct (first_seen xs)"
  by (induction xs) (auto simp: set_first_seen)

lemma length_first_seen: "length (first_seen xs) = card (set xs)"
  using distinct_card [OF distinct_first_seen, of xs] by (simp add: set_first_seen)

lemma dict_get_None: "(dict_get d k = None) = (k \<notin> fst ` set d)"
  by (simp add: dict_get_def map_of_eq_None_iff)

lemma dict_get_key: "dict_get d k = Some v \<Longrightarrow> k \<in> fst ` set d"
  using dict_get_None [of d k] by auto

lemma count_list_distinct: "distinct xs \<Longrightarrow> count_list xs x = (if x \<in> set xs then 1 else 0)"
  by (induction xs) auto

lemma keys_add_plays:
  "map fst (add_plays d a c) = (if a \<in> set (map fst d) then map fst d else map fst d @ [a])"
  by (cases "dict_get d a") (simp_all add: add_plays_def keys_dict_set dict_get_None [symmetric])

lemma dict_get_add_plays:
  "dict_get (add_plays d a c) k =
     (if k = a then Some ((case dict_get d a of None \<Rightarrow> 0 | Some t \<Rightarrow> t) + c) else dict_get d k)"
  by (cases "dict_get d a") (simp_all add: add_plays_def dict_get_set)

lemma keys_tally:
  "map fst (foldl (\<lambda>d p. add_plays d (fst p) (snd p)) d ps)
     = map fst d @ filter (\<lambda>a. a \<notin> set (map fst d)) (first_seen (map fst ps))"
proof (induction ps arbitrary: d)
  case Nil
  then show ?case by simp
next
  case (Cons p ps)
  show ?case
  proof (cases "fst p \<in> set (map fst d)")
    case True
    then have "filter (\<lambda>a. a \<notin> set (map fst d)) (filter (\<lambda>y. y \<noteq> fst p) (first_seen (map fst ps)))
        = filter (\<lambda>a. a \<notin> set (map fst d)) (first_seen (map fst ps))"
      by (auto intro: filter_cong)
    with True show ?thesis by (simp add: Cons.IH keys_add_plays)
  next
    case False
    have "filter (\<lambda>a. a \<notin> set (map fst d) \<and> a \<noteq> fst p) (first_seen (map fst ps))
        = filter (\<lambda>a. a \<notin> set (map fst d)) (filter (\<lambda>y. y \<noteq> fst p) (first_seen (map fst ps)))"
      by (auto intro: filter_cong)
    with False show ?thesis by (simp add: Cons.IH keys_add_plays)
  qed
qed

lemma dict_get_tally:
  "dict_get (foldl (\<lambda>d p. add_plays d (fst p) (snd p)) d ps) k
     = (if k \<in> set (map fst d) \<union> set (map fst ps)
        then Some ((case dict_get d k of None \<Rightarrow> 0 | Some t \<Rightarrow> t)
                   + sum_list (map snd (filter (\<lambda>p. fst p = k) ps)))
        else None)"
proof (induction ps arbitrary: d)
  case Nil
  then show ?case by (cases "dict_get d k") (auto simp: dict_get_None dict_get_key)
next
  case (Cons p ps)
  show ?case
    by (cases "dict_get d k")
       (auto simp add: Cons.IH dict_get_add_plays keys_add_plays dict_get_None dict_get_key)
qed

lemma count_artists_total:
  "has_entry u it \<Longrightarrow>
   count_artists u it as d = Inr (foldl (\<lambda>d p. add_plays d (fst p) (snd p)) d (map (\<lambda>a. (a, count_of u it)) as))"
  by (induction as arbitrary: d) (simp_all add: play_count_entry)

lemma bake_total:
  "(\<And>it. it \<in> set its \<Longrightarrow> has_entry u it) \<Longrightarrow>
   bake u its d = Inr (foldl (\<lambda>d p. add_plays d (fst p) (snd p)) d (artist_plays u its))"
  by (induction its arbitrary: d) (simp_all add: artist_plays_def count_artists_total)

lemma fst_plays: "map fst (artist_plays u its) = credited its"
  by (simp add: artist_plays_def credited_def map_concat comp_def)

lemma sum_plays_one:
  "sum_list (map snd (filter (\<lambda>p. fst p = a) (map (\<lambda>b. (b, c)) as))) = int (count_list as a) * c"
  by (induction as) (simp_all add: algebra_simps)

lemma sum_plays:
  "sum_list (map snd (filter (\<lambda>p. fst p = a) (artist_plays u its)))
     = (\<Sum>it\<leftarrow>its. credits a it * count_of u it)"
  by (induction its) (simp_all add: artist_plays_def credits_def sum_plays_one)

lemma credits_distinct:
  "distinct (Artists it) \<Longrightarrow> credits a it = (if a \<in> set (Artists it) then 1 else 0)"
  by (simp add: credits_def count_list_distinct)

lemma sum_credits_distinct:
  "(\<And>it. it \<in> set its \<Longrightarrow> distinct (Artists it)) \<Longrightarrow>
   (\<Sum>it\<leftarrow>its. credits a it * count_of u it)
     = sum_list (map (count_of u) (filter (\<lambda>it. a \<in> set (Artists it)) its))"
  by (induction its) (simp_all add: credits_distinct)

lemma fits_double_small: "\<bar>n\<bar> < 2 ^ 64 \<Longrightarrow> fits_double n"
proof -
  have "(2::int) ^ 64 \<le> 2 ^ 1024 - 2 ^ 970" by simp
  then show "\<bar>n\<bar> < 2 ^ 64 \<Longrightarrow> fits_double n" by (simp add: fits_double_def)
qed

lemma float_of_int_small: "\<bar>n\<bar> < 2 ^ 64 \<Longrightarrow> float_of_int n = Inr (of_int n)"
  by (simp add: float_of_int_def fits_double_small)

lemma add_item_minutes_total:
  "countable u it \<Longrightarrow>
   add_item_minutes u it x = Inr (x + of_int (ticks_of it) / 60000000 * of_int (count_of u it))"
  by (auto simp: countable_def has_runtime_def ticks_of_def add_item_minutes_def float_of_int_def
      play_count_entry split: option.splits)

lemma add_minutes_total:
  "(\<And>it. it \<in> set its \<Longrightarrow> countable u it) \<Longrightarrow>
   add_minutes u its x
     = Inr (x + (\<Sum>it\<leftarrow>its. of_int (ticks_of it) / 60000000 * of_int (count_of u it)))"
  by (induction its arbitrary: x) (simp_all add: add_item_minutes_total algebra_simps)

lemma top_artists_total:
  assumes "\<And>it. it \<in> set its \<Longrightarrow> has_entry u it"
  shows "top_artists its m u l
     = Inr (l @ py_slice_to m (sort_key (\<lambda>p. - snd p)
              (foldl (\<lambda>d p. add_plays d (fst p) (snd p)) [] (artist_plays u its))))"
proof -
  have "py_sorted_reverse (\<lambda>x. Inr (snd x)) d = Inr (sort_key (\<lambda>p. - snd p) d)"
    for d :: "(string \<times> int) list"
    by (rule py_sorted_reverse_total) simp
  then show ?thesis using assms by (simp add: top_artists_def bake_total)
qed

lemma top_songs_total:
  assumes "\<And>it. it \<in> set its \<Longrightarrow> has_entry u it"
  shows "top_songs its n u l = Inr (l @ py_slice_to n (sort_key (\<lambda>x. - count_of u x) its))"
proof -
  have "py_sorted_reverse (play_count u) its = Inr (sort_key (\<lambda>x. - count_of u x) its)"
    using assms by (intro py_sorted_reverse_total play_count_entry)
  then show ?thesis by (simp add: top_songs_def)
qed

lemma init_dict_key_user: "(k, v) \<in> set (init_dict us w) \<Longrightarrow> k \<in> user_Name ` set us"
  using init_dict_keys [of us w] by force

lemma aggregate_total:
  assumes "\<And>u it. u \<in> set us \<Longrightarrow> it \<in> set its \<Longrightarrow> countable (user_Name u) it"
  shows "\<exists>songs artists minutes.
           find_songs its us n = Inr songs \<and> find_artists its us m = Inr artists
           \<and> find_minutes its us = Inr minutes
           \<and> aggregate n m (start its us)
               = Inr ((start its us)\<lparr>most_listened_songs := songs,
                                     most_listened_artists := artists,
                                     minutes_listened := minutes\<rparr>)"
proof -
  have c: "countable k it" if "(k, v) \<in> set (init_dict us w)" "it \<in> set its" for k v w it
    using init_dict_key_user [OF that(1)] that(2) assms by auto
  have e: "has_entry k it" if "(k, v) \<in> set (init_dict us w)" "it \<in> set its" for k v w it
    using c [OF that] by (simp add: countable_def)
  have "\<exists>d. for_items (top_songs its n) (init_dict us []) = Inr d"
    by (rule for_items_total) (simp add: top_songs_total e)
  moreover have "\<exists>d. for_items (top_artists its m) (init_dict us []) = Inr d"
    by (rule for_items_total) (simp add: top_artists_total e)
  moreover have "\<exists>d. for_items (\<lambda>u minutes. add_minutes u its minutes) (init_dict us 0) = Inr d"
    by (rule for_items_total) (simp add: add_minutes_total c)
  ultimately show ?thesis
    by (auto simp: aggregate_def start_def find_songs_def find_artists_def find_minutes_def)
qed

section \<open>Top artists\<close>

text \<open>
  C2, as amended. Let \<open>u\<close> be a user of the user list with a play-count entry on every
  item, and \<open>num_top_artists\<close> non-negative. The dictionary built in lines 177-183 has
  the credited artist names as keys, in the order in which they are first met, and maps
  each name to the sum, over all items, of \<open>u\<close>'s play count times the number of times
  the item's artist list names the artist: an item counts in full for each of its
  artists, and once more for each repetition of a name in its list. Where no artist list
  repeats a name, this is the sum of the play counts of the items crediting the artist.
  The top artists are the first \<open>num_top_artists\<close> pairs of the stable, non-increasing
  rearrangement of this dictionary by total.
\<close>

theorem artist_totals_per_credit:
  assumes u: "u \<in> set us"
    and entries: "\<forall>it \<in> set its. has_entry (user_Name u) it"
    and m: "0 \<le> m"
  shows "\<exists>totals ys.
           bake (user_Name u) its [] = Inr totals
           \<and> map fst totals = first_seen (credited its)
           \<and> (\<forall>a \<in> set (credited its).
                 dict_get totals a = Some (\<Sum>it\<leftarrow>its. credits a it * count_of (user_Name u) it))
           \<and> ((\<forall>it \<in> set its. distinct (Artists it)) \<longrightarrow>
                (\<forall>a \<in> set (credited its).
                   dict_get totals a
                     = Some (sum_list (map (count_of (user_Name u))
                               (filter (\<lambda>it. a \<in> set (Artists it)) its)))))
           \<and> mset ys = mset totals
           \<and> sorted_wrt (\<lambda>p q. snd q \<le> snd p) ys
           \<and> (\<forall>c. filter (\<lambda>p. snd p = c) ys = filter (\<lambda>p. snd p = c) totals)
           \<and> top_artists its m (user_Name u) [] = Inr (take (nat m) ys)
           \<and> (\<forall>d. find_artists its us m = Inr d
                  \<longrightarrow> dict_get d (user_Name u) = Some (take (nat m) ys))"
proof -
  let ?n = "user_Name u"
  let ?totals = "foldl (\<lambda>d p. add_plays d (fst p) (snd p)) [] (artist_plays ?n its)"
  let ?ys = "sort_key (\<lambda>p. - snd p) ?totals"
  have e: "\<And>it. it \<in> set its \<Longrightarrow> has_entry ?n it" using entries by simp
  have b: "bake ?n its [] = Inr ?totals" using e by (rule bake_total)
  have k: "map fst ?totals = first_seen (credited its)"
    by (simp add: keys_tally fst_plays)
  have v: "dict_get ?totals a = Some (\<Sum>it\<leftarrow>its. credits a it * count_of ?n it)"
    if "a \<in> set (credited its)" for a
  proof -
    from that have "a \<in> set (map fst (artist_plays ?n its))"
      by (simp only: fst_plays)
    then have "dict_get ?totals a
        = Some ((case dict_get [] a of None \<Rightarrow> 0 | Some t \<Rightarrow> t)
                + sum_list (map snd (filter (\<lambda>p. fst p = a) (artist_plays ?n its))))"
      by (simp only: dict_get_tally) simp
    moreover have "dict_get ([]::(string, int) dict) a = None"
      by (simp add: dict_get_def)
    ultimately show ?thesis by (simp add: sum_plays)
  qed
  have vd: "dict_get ?totals a
      = Some (sum_list (map (count_of ?n) (filter (\<lambda>it. a \<in> set (Artists it)) its)))"
    if "\<forall>it \<in> set its. distinct (Artists it)" "a \<in> set (credited its)" for a
    using v [OF that(2)] sum_credits_distinct [of its a ?n] that(1) by simp
  have top: "top_artists its m ?n [] = Inr (take (nat m) ?ys)"
    using m e by (simp add: top_artists_total py_slice_to_def)
  have whole: "dict_get d ?n = Some (take (nat m) ?ys)" if "find_artists its us m = Inr d" for d
  proof -
    from that have "for_items (top_artists its m) (init_dict us []) = Inr d"
      by (simp add: find_artists_def)
    from for_items_get [OF this init_dict_props(1) init_dict_props(2) [OF u]] top
    show ?thesis by simp
  qed
  from b k v vd top whole sorted_by_count [where g = snd and xs = ?totals]
  show ?thesis by blast
qed

text \<open>
  The theorem at an item by \<open>A\<close> and \<open>B\<close> played three times and an item by \<open>B\<close>
  played twice: \<open>B\<close> has five plays and \<open>A\<close> three.
\<close>

theorem artist_totals_per_credit_witness:
  "person ''amy'' \<in> set [person ''amy'']
   \<and> has_entry (user_Name (person ''amy'')) (song ''s'' [''A'', ''B''] 60000000 [(''amy'', 3)])
   \<and> has_entry (user_Name (person ''amy'')) (song ''t'' [''B''] 60000000 [(''amy'', 2)])
   \<and> (0::int) \<le> 5
   \<and> (\<exists>totals ys.
         bake ''amy'' [song ''s'' [''A'', ''B''] 60000000 [(''amy'', 3)],
                       song ''t'' [''B''] 60000000 [(''amy'', 2)]] [] = Inr totals
         \<and> map fst totals
             = first_seen (credited [song ''s'' [''A'', ''B''] 60000000 [(''amy'', 3)],
                                     song ''t'' [''B''] 60000000 [(''amy'', 2)]])
         \<and> sorted_wrt (\<lambda>p q. snd q \<le> snd p) ys
         \<and> top_artists [song ''s'' [''A'', ''B''] 60000000 [(''amy'', 3)],
                         song ''t'' [''B''] 60000000 [(''amy'', 2)]] 5 ''amy'' []
             = Inr (take (nat 5) ys))
   \<and> top_artists [song ''s'' [''A'', ''B''] 60000000 [(''amy'', 3)],
                   song ''t'' [''B''] 60000000 [(''amy'', 2)]] 5 ''amy'' []
       = Inr [(''B'', 5), (''A'', 3)]"
proof -
  let ?its = "[song ''s'' [''A'', ''B''] 60000000 [(''amy'', 3)], song ''t'' [''B''] 60000000 [(''amy'', 2)]]"
  have h: "\<forall>it \<in> set ?its. has_entry (user_Name (person ''amy'')) it"
    by (simp add: has_entry_def dict_get_def song_def person_def)
  have u: "person ''amy'' \<in> set [person ''amy'']" by simp
  have m: "(0::int) \<le> 5" by simp
  have nm: "user_Name (person ''amy'') = ''amy''" by (simp add: person_def)
  have run: "top_artists ?its 5 ''amy'' [] = Inr [(''B'', 5), (''A'', 3)]"
    by (simp add: top_artists_def py_sorted_reverse_def play_count_def dict_get_def
        sort_desc_def py_slice_to_def song_def add_plays_def)
  note artist_totals_per_credit [OF u h m, unfolded nm]
  then have "\<exists>totals ys. bake ''amy'' ?its [] = Inr totals
         \<and> map fst totals = first_seen (credited ?its)
         \<and> sorted_wrt (\<lambda>p q. snd q \<le> snd p) ys
         \<and> top_artists ?its 5 ''amy'' [] = Inr (take (nat 5) ys)"
    by blast
  with u h m run show ?thesis by simp
qed

text \<open>
  C2 as stated fails where an artist list names an artist twice: for one item played
  once whose artist list is \<open>[A, A]\<close>, the sum of the play counts of the items crediting
  \<open>A\<close> is 1, and the total of \<open>A\<close> is 2.
\<close>

theorem artist_totals_counterexample:
  "sum_list (map (count_of ''amy'')
      (filter (\<lambda>it. ''A'' \<in> set (Artists it)) [song ''s'' [''A'', ''A''] 60000000 [(''amy'', 1)]])) = 1
   \<and> bake ''amy'' [song ''s'' [''A'', ''A''] 60000000 [(''amy'', 1)]] [] = Inr [(''A'', 2)]
   \<and> top_artists [song ''s'' [''A'', ''A''] 60000000 [(''amy'', 1)]] 5 ''amy'' [] = Inr [(''A'', 2)]
   \<and> bake ''amy'' [song ''s'' [''A'', ''A''] 60000000 [(''amy'', 1)]] []
       \<noteq> Inr [(''A'', sum_list (map (count_of ''amy'')
                  (filter (\<lambda>it. ''A'' \<in> set (Artists it))
                     [song ''s'' [''A'', ''A''] 60000000 [(''amy'', 1)]])))]"
  by (simp add: top_artists_def py_sorted_reverse_def play_count_def dict_get_def
      sort_desc_def py_slice_to_def song_def add_plays_def count_of_def)

lemma sum_list_zero: "(\<And>x. x \<in> set xs \<Longrightarrow> f x = (0::int)) \<Longrightarrow> sum_list (map f xs) = 0"
  by (induction xs) simp_all

text \<open>
  C10. Let \<open>u\<close> be a user of the user list with a play-count entry on every item, and
  \<open>num_top_artists\<close> non-negative. The dictionary built in lines 177-183 has exactly the
  artist names of the items' artist lists as keys, each once; a name whose items all
  have play count zero has the total 0. The top artists are as many as the smaller of
  \<open>num_top_artists\<close> and the number of distinct names, and where there are no more names
  than \<open>num_top_artists\<close> every name is among them, whatever its total.
\<close>

theorem every_artist_has_total:
  assumes u: "u \<in> set us"
    and entries: "\<forall>it \<in> set its. has_entry (user_Name u) it"
    and m: "0 \<le> m"
  shows "\<exists>totals tops.
           bake (user_Name u) its [] = Inr totals
           \<and> fst ` set totals = set (credited its)
           \<and> distinct (map fst totals)
           \<and> (\<forall>a \<in> set (credited its).
                 (\<forall>it \<in> set its. a \<in> set (Artists it) \<longrightarrow> count_of (user_Name u) it = 0)
                 \<longrightarrow> dict_get totals a = Some 0)
           \<and> top_artists its m (user_Name u) [] = Inr tops
           \<and> (\<forall>d. find_artists its us m = Inr d \<longrightarrow> dict_get d (user_Name u) = Some tops)
           \<and> length tops = min (nat m) (card (set (credited its)))
           \<and> (card (set (credited its)) \<le> nat m \<longrightarrow> fst ` set tops = set (credited its))"
proof -
  let ?n = "user_Name u"
  let ?totals = "foldl (\<lambda>d p. add_plays d (fst p) (snd p)) [] (artist_plays ?n its)"
  let ?tops = "take (nat m) (sort_key (\<lambda>p. - snd p) ?totals)"
  have e: "\<And>it. it \<in> set its \<Longrightarrow> has_entry ?n it" using entries by simp
  have b: "bake ?n its [] = Inr ?totals" using e by (rule bake_total)
  have k: "map fst ?totals = first_seen (credited its)"
    by (simp add: keys_tally fst_plays)
  have ks: "fst ` set ?totals = set (credited its)"
    using arg_cong [OF k, of set] by (simp add: set_first_seen)
  have kd: "distinct (map fst ?totals)"
    by (simp only: k distinct_first_seen)
  have len: "length ?totals = card (set (credited its))"
    using arg_cong [OF k, of length] by (simp add: length_first_seen)
  have z: "dict_get ?totals a = Some 0"
    if a: "a \<in> set (credited its)"
      and zero: "\<forall>it \<in> set its. a \<in> set (Artists it) \<longrightarrow> count_of ?n it = 0" for a
  proof -
    from a have "a \<in> set (map fst (artist_plays ?n its))"
      by (simp only: fst_plays)
    then have "dict_get ?totals a
        = Some ((case dict_get [] a of None \<Rightarrow> 0 | Some t \<Rightarrow> t)
                + sum_list (map snd (filter (\<lambda>p. fst p = a) (artist_plays ?n its))))"
      by (simp only: dict_get_tally) simp
    moreover have "dict_get ([]::(string, int) dict) a = None"
      by (simp add: dict_get_def)
    moreover have "(\<Sum>it\<leftarrow>its. credits a it * count_of ?n it) = 0"
    proof (rule sum_list_zero)
      fix it assume "it \<in> set its"
      with zero show "credits a it * count_of ?n it = 0"
        by (cases "a \<in> set (Artists it)") (simp_all add: credits_def)
    qed
    ultimately show ?thesis by (simp add: sum_plays)
  qed
  have top: "top_artists its m ?n [] = Inr ?tops"
    using m e by (simp add: top_artists_total py_slice_to_def)
  have whole: "dict_get d ?n = Some ?tops" if "find_artists its us m = Inr d" for d
  proof -
    from that have "for_items (top_artists its m) (init_dict us []) = Inr d"
      by (simp add: find_artists_def)
    from for_items_get [OF this init_dict_props(1) init_dict_props(2) [OF u]] top
    show ?thesis by simp
  qed
  have l: "length ?tops = min (nat m) (card (set (credited its)))"
    by (simp add: len min.commute)
  have all: "fst ` set ?tops = set (credited its)" if "card (set (credited its)) \<le> nat m"
    using that ks by (simp add: len)
  from b ks kd z top whole l all show ?thesis by blast
qed

text \<open>
  The theorem at an item by \<open>X\<close> played once and an item by \<open>Y\<close>, \<open>X\<close> and \<open>Z\<close> never
  played, with five top artists asked for: \<open>Y\<close> and \<open>Z\<close> are top artists with total 0.
\<close>

theorem every_artist_has_total_witness:
  "person ''amy'' \<in> set [person ''amy'']
   \<and> has_entry (user_Name (person ''amy'')) (song ''s'' [''X''] 60000000 [(''amy'', 1)])
   \<and> has_entry (user_Name (person ''amy'')) (song ''t'' [''Y'', ''X'', ''Z''] 60000000 [(''amy'', 0)])
   \<and> (0::int) \<le> 5
   \<and> (\<exists>tops. top_artists [song ''s'' [''X''] 60000000 [(''amy'', 1)],
                           song ''t'' [''Y'', ''X'', ''Z''] 60000000 [(''amy'', 0)]] 5 ''amy'' []
                 = Inr tops
         \<and> length tops
             = min (nat 5) (card (set (credited [song ''s'' [''X''] 60000000 [(''amy'', 1)],
                                                song ''t'' [''Y'', ''X'', ''Z''] 60000000 [(''amy'', 0)]]))))
   \<and> top_artists [song ''s'' [''X''] 60000000 [(''amy'', 1)],
                   song ''t'' [''Y'', ''X'', ''Z''] 60000000 [(''amy'', 0)]] 5 ''amy'' []
       = Inr [(''X'', 1), (''Y'', 0), (''Z'', 0)]"
proof -
  let ?its = "[song ''s'' [''X''] 60000000 [(''amy'', 1)], song ''t'' [''Y'', ''X'', ''Z''] 60000000 [(''amy'', 0)]]"
  have h: "\<forall>it \<in> set ?its. has_entry (user_Name (person ''amy'')) it"
    by (simp add: has_entry_def dict_get_def song_def person_def)
  have u: "person ''amy'' \<in> set [person ''amy'']" by simp
  have m: "(0::int) \<le> 5" by simp
  have nm: "user_Name (person ''amy'') = ''amy''" by (simp add: person_def)
  have run: "top_artists ?its 5 ''amy'' [] = Inr [(''X'', 1), (''Y'', 0), (''Z'', 0)]"
    by (simp add: top_artists_def py_sorted_reverse_def play_count_def dict_get_def
        sort_desc_def py_slice_to_def song_def add_plays_def)
  note every_artist_has_total [OF u h m, unfolded nm]
  then have "\<exists>tops. top_artists ?its 5 ''amy'' [] = Inr tops
         \<and> length tops = min (nat 5) (card (set (credited ?its)))"
    by blast
  with u h m run show ?thesis by simp
qed

section \<open>Runs on concrete inputs\<close>

lemmas run_defs = find_songs_def find_artists_def find_minutes_def init_dict_def top_songs_def
  top_artists_def py_sorted_reverse_def play_count_def dict_get_def sort_desc_def
  py_slice_to_def add_plays_def add_item_minutes_def float_of_int_small song_def person_def

text \<open>
  C7. Users \<open>alice\<close> and \<open>bob\<close>; \<open>S1\<close> of 12e7 ticks played 3 and 0 times, \<open>S2\<close> of
  6e7 ticks played 1 and 5 times, \<open>S3\<close> of 18e7 ticks played 0 and 2 times; two top
  songs. Whatever the artist lists and the number of top artists, the aggregation
  completes with the top songs \<open>[S1, S2]\<close> and 7 minutes for \<open>alice\<close> and \<open>[S2, S3]\<close>
  and 11 minutes for \<open>bob\<close>. (Every quotient, product and sum of line 190 is an integer
  here, so the floats of the source are these numbers exactly.)
\<close>

theorem scenario_alice_bob:
  "\<exists>s. aggregate 2 m
          (start [song ''S1'' a1 120000000 [(''alice'', 3), (''bob'', 0)],
                  song ''S2'' a2 60000000 [(''alice'', 1), (''bob'', 5)],
                  song ''S3'' a3 180000000 [(''alice'', 0), (''bob'', 2)]]
                 [person ''alice'', person ''bob'']) = Inr s
       \<and> most_listened_songs s
           = [(''alice'', [song ''S1'' a1 120000000 [(''alice'', 3), (''bob'', 0)],
                           song ''S2'' a2 60000000 [(''alice'', 1), (''bob'', 5)]]),
              (''bob'', [song ''S2'' a2 60000000 [(''alice'', 1), (''bob'', 5)],
                         song ''S3'' a3 180000000 [(''alice'', 0), (''bob'', 2)]])]
       \<and> minutes_listened s = [(''alice'', 7), (''bob'', 11)]"
proof -
  let ?its = "[song ''S1'' a1 120000000 [(''alice'', 3), (''bob'', 0)],
               song ''S2'' a2 60000000 [(''alice'', 1), (''bob'', 5)],
               song ''S3'' a3 180000000 [(''alice'', 0), (''bob'', 2)]]"
  let ?us = "[person ''alice'', person ''bob'']"
  have songs: "find_songs ?its ?us 2
      = Inr [(''alice'', [song ''S1'' a1 120000000 [(''alice'', 3), (''bob'', 0)],
                          song ''S2'' a2 60000000 [(''alice'', 1), (''bob'', 5)]]),
             (''bob'', [song ''S2'' a2 60000000 [(''alice'', 1), (''bob'', 5)],
                        song ''S3'' a3 180000000 [(''alice'', 0), (''bob'', 2)]])]"
    by (simp add: run_defs)
  have minutes: "find_minutes ?its ?us = Inr [(''alice'', 7), (''bob'', 11)]"
    by (simp add: run_defs)
  have "countable (user_Name u) it" if "u \<in> set ?us" "it \<in> set ?its" for u it
    using that
    by (auto simp: countable_def has_entry_def has_runtime_def count_of_def dict_get_def
        song_def person_def fits_double_small)
  from aggregate_total [of ?us ?its 2 m, OF this] songs minutes
  show ?thesis by auto
qed

text \<open>
  C5. An empty catalog and the one user \<open>maf\<close>, with the default counts. The
  aggregation gives \<open>maf\<close> no top songs, no top artists and 0 minutes, as the claim
  says; but line 198 then takes element 0 of the empty top-song list, and the run ends
  in \<open>IndexError\<close> with no image fetched and no document written.
\<close>

theorem empty_catalog_run:
  "aggregate 5 5 (start [] [person ''maf''])
     = Inr \<lparr>item_data = [], users = [person ''maf''],
            most_listened_songs = [(''maf'', [])],
            most_listened_artists = [(''maf'', [])],
            minutes_listened = [(''maf'', 0)]\<rparr>
   \<and> generate_jellyfin_recap
        \<lparr>audio_items = Some [], all_users = Some [person ''maf''],
         item_userdata = f, item_image_ok = ok\<rparr> 5 5
       = (Some IndexError, \<lparr>images = [], documents = []\<rparr>)"
proof -
  have agg: "aggregate 5 5 (start [] [person ''maf''])
     = Inr \<lparr>item_data = [], users = [person ''maf''],
            most_listened_songs = [(''maf'', [])],
            most_listened_artists = [(''maf'', [])],
            minutes_listened = [(''maf'', 0)]\<rparr>"
    by (simp add: aggregate_def start_def run_defs)
  then show ?thesis
    by (simp add: generate_jellyfin_recap_def recap_def debug_print_def dict_index_def
        list_index_def dict_get_def)
qed

text \<open>
  C6. One item \<open>s\<close> by \<open>A\<close>, played once by the one user \<open>maf\<close>. With one top song
  and one top artist asked for, the document has one row. With the default counts, 5
  and 5, the loop of lines 258-262 runs to index 1 of lists of length 1: the run ends in
  \<open>IndexError\<close> and leaves a document that breaks off after the opening of a second row.
\<close>

theorem short_lists_run:
  "generate_jellyfin_recap
     \<lparr>audio_items = Some [song ''s'' [''A''] 60000000 []], all_users = Some [person ''maf''],
      item_userdata = (\<lambda>i u. Some \<lparr>PlayCount = 1\<rparr>), item_image_ok = (\<lambda>i. True)\<rparr> 1 1
     = (None, \<lparr>images = [''s''],
               documents = [(''maf_jellyfin_wrapped.html'',
                  [Head, Cover ''s'', TableOpen,
                   RowOpen, ArtistCell 1 ''A'', SongCell 1 ''s'', RowClose,
                   TableClose, Minutes 1, Tail])]\<rparr>)
   \<and> generate_jellyfin_recap
     \<lparr>audio_items = Some [song ''s'' [''A''] 60000000 []], all_users = Some [person ''maf''],
      item_userdata = (\<lambda>i u. Some \<lparr>PlayCount = 1\<rparr>), item_image_ok = (\<lambda>i. True)\<rparr> 5 5
     = (Some IndexError, \<lparr>images = [''s''],
               documents = [(''maf_jellyfin_wrapped.html'',
                  [Head, Cover ''s'', TableOpen,
                   RowOpen, ArtistCell 1 ''A'', SongCell 1 ''s'', RowClose,
                   RowOpen])]\<rparr>)"
proof -
  let ?it = "\<lparr>item_Id = ''s'', item_Name = ''s'', AlbumArtist = Some ''various'',
     Artists = [''A''], RunTimeTicks = Some 60000000,
     UserData = [(''maf'', \<lparr>PlayCount = 1\<rparr>)]\<rparr>"
  let ?u = "\<lparr>user_Id = ''maf'', user_Name = ''maf''\<rparr>"
  let ?s = "\<lambda>n. \<lparr>item_data = [?it], users = [?u],
            most_listened_songs = [(''maf'', py_slice_to n [?it])],
            most_listened_artists = [(''maf'', py_slice_to n [(''A'', 1)])],
            minutes_listened = [(''maf'', 1)]\<rparr>"
  have agg: "aggregate n n (start [?it] [?u]) = Inr (?s n)" for n
    by (simp add: aggregate_def start_def find_songs_def find_artists_def find_minutes_def
        init_dict_def top_songs_def top_artists_def py_sorted_reverse_def play_count_def
        dict_get_def sort_desc_def add_plays_def add_item_minutes_def float_of_int_small)
  have upt5: "[0..<5] = [0, 1, 2, 3, 4]" by (simp add: upt_rec)
  show ?thesis
    by (simp add: generate_jellyfin_recap_def with_userdata_def song_def agg
        recap_def debug_print_def dict_index_def list_index_def dict_get_def
        name_and_album_artist_def get_item_image_def write_document_def py_slice_to_def
        upt5 person_def)
qed

section \<open>The debug print\<close>

lemma keys_dict_set_set: "fst ` set (dict_set d k v) = insert k (fst ` set d)"
  using arg_cong [OF keys_dict_set [of d k v], of set] by auto

lemma add_userdata_total:
  "(\<And>u. u \<in> set us \<Longrightarrow> item_userdata srv (item_Id it) (user_Id u) \<noteq> None) \<Longrightarrow>
   \<exists>d'. add_userdata srv it us d = Inr d' \<and> fst ` set d' = fst ` set d \<union> user_Name ` set us"
proof (induction us arbitrary: d)
  case Nil
  then show ?case by simp
next
  case (Cons u us)
  from Cons.prems [of u] obtain ud where ud: "item_userdata srv (item_Id it) (user_Id u) = Some ud"
    by auto
  from Cons.IH [of "dict_set d (user_Name u) ud"] Cons.prems
  obtain d' where "add_userdata srv it us (dict_set d (user_Name u) ud) = Inr d'"
    "fst ` set d' = fst ` set (dict_set d (user_Name u) ud) \<union> user_Name ` set us"
    by auto
  with ud show ?case by (auto simp: keys_dict_set_set)
qed

lemma with_userdata_total:
  assumes "\<And>u. u \<in> set us \<Longrightarrow> item_userdata srv (item_Id it) (user_Id u) \<noteq> None"
  shows "\<exists>it'. with_userdata srv us it = Inr it' \<and> (\<forall>u \<in> set us. has_entry (user_Name u) it')"
proof -
  from add_userdata_total [of us srv it "[]", OF assms]
  obtain d' where "add_userdata srv it us [] = Inr d'" "fst ` set d' = user_Name ` set us"
    by auto
  then show ?thesis
    by (auto simp: with_userdata_def has_entry_def dict_get_None)
qed

lemma set_dict_set: "set (dict_set d k v) \<subseteq> insert (k, v) (set d)"
proof (induction d)
  case Nil
  then show ?case by simp
next
  case (Cons p d)
  obtain k0 v0 where "p = (k0, v0)" by (cases p)
  with Cons show ?case by (cases "k0 = k") auto
qed

lemma add_userdata_values:
  "add_userdata srv it us d = Inr d' \<Longrightarrow> (k, v) \<in> set d' \<Longrightarrow>
   (k, v) \<in> set d \<or> (\<exists>u \<in> set us. item_userdata srv (item_Id it) (user_Id u) = Some v)"
proof (induction us arbitrary: d)
  case Nil
  then show ?case by simp
next
  case (Cons u us)
  from Cons.prems(1) obtain ud where
    ud: "item_userdata srv (item_Id it) (user_Id u) = Some ud" and
    rest: "add_userdata srv it us (dict_set d (user_Name u) ud) = Inr d'"
    by (auto split: option.splits)
  from Cons.IH [OF rest Cons.prems(2)] set_dict_set [of d "user_Name u" ud] ud
  show ?case by auto
qed

lemma with_userdata_countable:
  assumes rt: "has_runtime it"
    and fetched: "\<And>u. u \<in> set us \<Longrightarrow>
      \<exists>ud. item_userdata srv (item_Id it) (user_Id u) = Some ud \<and> fits_double (PlayCount ud)"
  shows "\<exists>it'. with_userdata srv us it = Inr it' \<and> (\<forall>u \<in> set us. countable (user_Name u) it')"
proof -
  have "item_userdata srv (item_Id it) (user_Id u) \<noteq> None" if "u \<in> set us" for u
    using fetched [OF that] by auto
  from add_userdata_total [of us srv it "[]", OF this]
  obtain d' where d': "add_userdata srv it us [] = Inr d'" "fst ` set d' = user_Name ` set us"
    by auto
  have "fits_double (PlayCount ud)" if "dict_get d' k = Some ud" for k ud
  proof -
    from that have "(k, ud) \<in> set d'" by (rule dict_get_in)
    from add_userdata_values [OF d'(1) this]
    obtain u where "u \<in> set us" "item_userdata srv (item_Id it) (user_Id u) = Some ud"
      by auto
    with fetched [of u] show ?thesis by auto
  qed
  then have "fits_double (count_of k (it\<lparr>UserData := d'\<rparr>))" for k
    by (cases "dict_get d' k") (simp_all add: count_of_def fits_double_small)
  with d' rt show ?thesis
    by (auto simp: with_userdata_def countable_def has_entry_def has_runtime_def dict_get_None)
qed

lemma aggregate_keys:
  assumes "aggregate n m (start its us) = Inr s"
  shows "fst ` set (most_listened_songs s) = user_Name ` set us"
proof -
  from assms obtain d where d: "for_items (top_songs its n) (init_dict us []) = Inr d"
    and s: "most_listened_songs s = d"
    by (auto simp: aggregate_def start_def find_songs_def split: sum.splits)
  from d have "map fst d = map fst (init_dict us ([]::item list))"
    by (rule for_items_keys)
  then have "set (map fst d) = set (map fst (init_dict us ([]::item list)))"
    by (rule arg_cong)
  with s show ?thesis by (simp add: init_dict_keys)
qed

lemma debug_print_no_maf:
  "''maf'' \<notin> fst ` set (most_listened_songs s) \<Longrightarrow> debug_print s = Some (KeyError ''maf'')"
  by (simp add: debug_print_def dict_index_def dict_get_None [symmetric])

text \<open>
  C9. Let the run have a user list in which no user is called \<open>maf\<close>. Then it ends in
  an error with no image fetched and no document written, whatever else the server
  holds. If all other inputs are valid (the server answers the request for the items
  and for the user data of every item and user, every item has its \<open>RunTimeTicks\<close>,
  and the ticks and the play counts are in the range of the doubles), the items get
  their user data, the aggregation completes, and the error is \<open>KeyError\<close> for the key
  \<open>maf\<close>, raised by the print of line 193.
\<close>

theorem no_maf_raises:
  assumes us: "all_users srv = Some us"
    and no_maf: "''maf'' \<notin> user_Name ` set us"
  shows "(\<exists>e. generate_jellyfin_recap srv n m = (Some e, \<lparr>images = [], documents = []\<rparr>))
         \<and> (\<forall>raw. audio_items srv = Some raw
                \<and> (\<forall>it \<in> set raw. has_runtime it
                      \<and> (\<forall>u \<in> set us. \<exists>ud. item_userdata srv (item_Id it) (user_Id u) = Some ud
                                              \<and> fits_double (PlayCount ud)))
              \<longrightarrow> (\<exists>its s. map_err (with_userdata srv us) raw = Inr its
                           \<and> aggregate n m (start its us) = Inr s
                           \<and> debug_print s = Some (KeyError ''maf''))
                  \<and> generate_jellyfin_recap srv n m
                      = (Some (KeyError ''maf''), \<lparr>images = [], documents = []\<rparr>))"
proof -
  have stop: "recap ok n m its us = (Some (KeyError ''maf''), \<lparr>images = [], documents = []\<rparr>)"
    if "aggregate n m (start its us) = Inr s" for ok its s
    using that debug_print_no_maf [of s] aggregate_keys [OF that] no_maf
    by (simp add: recap_def)
  have any: "\<exists>e. generate_jellyfin_recap srv n m = (Some e, \<lparr>images = [], documents = []\<rparr>)"
  proof (cases "audio_items srv")
    case None
    then show ?thesis by (simp add: generate_jellyfin_recap_def)
  next
    case (Some raw)
    show ?thesis
    proof (cases "map_err (with_userdata srv us) raw")
      case (Inl e)
      with Some us show ?thesis by (simp add: generate_jellyfin_recap_def)
    next
      case (Inr its)
      show ?thesis
      proof (cases "aggregate n m (start its us)")
        case (Inl e)
        with Some us Inr show ?thesis by (simp add: generate_jellyfin_recap_def recap_def)
      next
        case r: (Inr s)
        with Some us Inr stop [OF r] show ?thesis by (simp add: generate_jellyfin_recap_def)
      qed
    qed
  qed
  have valid: "(\<exists>its s. map_err (with_userdata srv us) raw = Inr its
                  \<and> aggregate n m (start its us) = Inr s
                  \<and> debug_print s = Some (KeyError ''maf''))
          \<and> generate_jellyfin_recap srv n m
              = (Some (KeyError ''maf''), \<lparr>images = [], documents = []\<rparr>)"
    if raw: "audio_items srv = Some raw"
      and ok: "\<forall>it \<in> set raw. has_runtime it
                \<and> (\<forall>u \<in> set us. \<exists>ud. item_userdata srv (item_Id it) (user_Id u) = Some ud
                                        \<and> fits_double (PlayCount ud))"
    for raw
  proof -
    have "\<exists>its. map_err (with_userdata srv us) raw = Inr its
            \<and> (\<forall>it' \<in> set its. \<forall>u \<in> set us. countable (user_Name u) it')"
      using ok by (intro map_err_all with_userdata_countable) auto
    then obtain its where its: "map_err (with_userdata srv us) raw = Inr its"
      and c: "\<And>u it. u \<in> set us \<Longrightarrow> it \<in> set its \<Longrightarrow> countable (user_Name u) it"
      by blast
    from aggregate_total [of us its n m, OF c]
    obtain s where s: "aggregate n m (start its us) = Inr s" by blast
    from aggregate_keys [OF s] no_maf have p: "debug_print s = Some (KeyError ''maf'')"
      by (simp add: debug_print_no_maf)
    from its s p raw us stop [OF s] show ?thesis
      by (auto simp: generate_jellyfin_recap_def)
  qed
  from any valid show ?thesis by blast
qed

text \<open>The theorem at a server with one item and the one user \<open>amy\<close>.\<close>

theorem no_maf_raises_witness:
  "all_users \<lparr>audio_items = Some [song ''s'' [''A''] 60000000 []],
              all_users = Some [person ''amy''],
              item_userdata = (\<lambda>i u. Some \<lparr>PlayCount = 1\<rparr>),
              item_image_ok = (\<lambda>i. True)\<rparr> = Some [person ''amy'']
   \<and> ''maf'' \<notin> user_Name ` set [person ''amy'']
   \<and> has_runtime (song ''s'' [''A''] 60000000 [])
   \<and> fits_double (PlayCount \<lparr>PlayCount = 1\<rparr>)
   \<and> generate_jellyfin_recap
        \<lparr>audio_items = Some [song ''s'' [''A''] 60000000 []],
         all_users = Some [person ''amy''],
         item_userdata = (\<lambda>i u. Some \<lparr>PlayCount = 1\<rparr>),
         item_image_ok = (\<lambda>i. True)\<rparr> 5 5
       = (Some (KeyError ''maf''), \<lparr>images = [], documents = []\<rparr>)"
proof -
  let ?srv = "\<lparr>audio_items = Some [song ''s'' [''A''] 60000000 []],
         all_users = Some [person ''amy''],
         item_userdata = (\<lambda>i u. Some \<lparr>PlayCount = 1\<rparr>),
         item_image_ok = (\<lambda>i. True)\<rparr>"
  have 1: "audio_items ?srv = Some [song ''s'' [''A''] 60000000 []]" by simp
  have 2: "all_users ?srv = Some [person ''amy'']" by simp
  have 3: "has_runtime (song ''s'' [''A''] 60000000 [])"
    by (simp add: has_runtime_def song_def fits_double_small)
  have 4: "fits_double (PlayCount \<lparr>PlayCount = 1\<rparr>)"
    by (simp add: fits_double_small)
  have 5: "''maf'' \<notin> user_Name ` set [person ''amy'']" by (simp add: person_def)
  have 6: "\<forall>it \<in> set [song ''s'' [''A''] 60000000 []]. has_runtime it
      \<and> (\<forall>u \<in> set [person ''amy''].
            \<exists>ud. item_userdata ?srv (item_Id it) (user_Id u) = Some ud \<and> fits_double (PlayCount ud))"
    using 3 4 by simp
  from no_maf_raises [OF 2 5, of 5 5] 1 6
  have "generate_jellyfin_recap ?srv 5 5
      = (Some (KeyError ''maf''), \<lparr>images = [], documents = []\<rparr>)"
    by blast
  with 2 3 4 5 show ?thesis by blast
qed


section \<open>The aggregation on the store\<close>

lemma the_cells [simp]:
  "cells h a = Some (ItemObj it) \<Longrightarrow> the_item h a = Inr it"
  "cells h a = Some (UserObj u) \<Longrightarrow> the_user h a = Inr u"
  "cells h a = Some (ListObj rs) \<Longrightarrow> the_list h a = Inr rs"
  "cells h a = Some (PairsObj ps) \<Longrightarrow> the_pairs h a = Inr ps"
  "cells h a = Some (ListsDict d) \<Longrightarrow> the_lists_dict h a = Inr d"
  "cells h a = Some (TotalsDict t) \<Longrightarrow> the_totals h a = Inr t"
  "cells h a = Some (MinutesDict md) \<Longrightarrow> the_minutes h a = Inr md"
  by (simp_all add: the_item_def the_user_def the_list_def the_pairs_def the_lists_dict_def
      the_totals_def the_minutes_def)

lemma rel_sum_InlD: "rel_sum (=) P x (Inl e) \<Longrightarrow> x = Inl e"
  by (cases x) simp_all

lemma rel_sum_InrD: "rel_sum (=) P x (Inr v) \<Longrightarrow> \<exists>y. x = Inr y \<and> P y v"
  by (cases x) simp_all

lemma wf_store_below: "wf_store h \<Longrightarrow> cells h a = Some ob \<Longrightarrow> a < next_free h"
  by (rule ccontr) (simp add: wf_store_def)

lemma new_props:
  "new ob h = (a, h') \<Longrightarrow>
   a = next_free h \<and> next_free h' = Suc (next_free h) \<and> cells h' a = Some ob
   \<and> (\<forall>b. b \<noteq> a \<longrightarrow> cells h' b = cells h b)"
  by (auto simp: new_def)

lemma wf_store_new: "wf_store h \<Longrightarrow> new ob h = (a, h') \<Longrightarrow> wf_store h'"
  by (auto simp: new_def wf_store_def)

lemma wf_store_put: "wf_store h \<Longrightarrow> a < next_free h \<Longrightarrow> wf_store (put a ob h)"
  by (auto simp: put_def wf_store_def)

lemma put_put: "put a x (put a y h) = put a x h"
  by (simp add: put_def)

lemma put_same: "cells h a = Some ob \<Longrightarrow> put a ob h = h"
  by (simp add: put_def fun_upd_idem)

lemma those_map_Some:
  "(those (map f xs) = Some ys) = list_all2 (\<lambda>x y. f x = Some y) xs ys"
proof (induction xs arbitrary: ys)
  case Nil
  then show ?case by auto
next
  case (Cons x xs)
  then show ?case by (cases ys) (auto split: option.splits)
qed

lemma list_all2_zip_mem:
  "list_all2 P xs ys \<Longrightarrow> list_all2 (\<lambda>x y. P x y \<and> (x, y) \<in> set (zip xs ys)) xs ys"
  by (auto simp: list_all2_conv_all_nth set_zip)

lemma list_all2_in_zip:
  "list_all2 P xs ys \<Longrightarrow> (x, y) \<in> set (zip xs ys) \<Longrightarrow> P x y"
  by (auto simp: list_all2_conv_all_nth set_zip)

subsection \<open>Sorting references and sorting what they refer to\<close>

lemma insert_desc_rel:
  "list_all2 (\<lambda>p q. fst p = fst q \<and> R (snd p) (snd q)) ps qs \<Longrightarrow>
   fst p = fst q \<Longrightarrow> R (snd p) (snd q) \<Longrightarrow>
   list_all2 (\<lambda>p q. fst p = fst q \<and> R (snd p) (snd q)) (insert_desc p ps) (insert_desc q qs)"
  by (induction ps qs rule: list_all2_induct) auto

lemma sort_desc_rel:
  "list_all2 (\<lambda>p q. fst p = fst q \<and> R (snd p) (snd q)) ps qs \<Longrightarrow>
   list_all2 (\<lambda>p q. fst p = fst q \<and> R (snd p) (snd q)) (sort_desc ps) (sort_desc qs)"
  by (induction ps qs rule: list_all2_induct) (simp_all add: sort_desc_def insert_desc_rel)

lemma map_err_rel:
  "list_all2 R xs ys \<Longrightarrow> (\<And>x y. R x y \<Longrightarrow> f x = g y) \<Longrightarrow> map_err f xs = map_err g ys"
proof (induction xs ys rule: list_all2_induct)
  case Nil
  then show ?case by simp
next
  case (Cons x xs y ys)
  from Cons.hyps(1) Cons.prems have "f x = g y" by simp
  moreover from Cons.IH Cons.prems have "map_err f xs = map_err g ys" by simp
  ultimately show ?case by (simp split: sum.splits)
qed

lemma map_err_length: "map_err f xs = Inr ys \<Longrightarrow> length ys = length xs"
  by (induction xs arbitrary: ys) (auto split: sum.splits)

lemma py_sorted_reverse_rel:
  assumes r: "list_all2 R xs ys" and k: "\<And>x y. R x y \<Longrightarrow> f x = g y"
  shows "rel_sum (=) (list_all2 R) (py_sorted_reverse f xs) (py_sorted_reverse g ys)"
proof (cases "map_err g ys")
  case (Inl e)
  with map_err_rel [OF r k] show ?thesis by (simp add: py_sorted_reverse_def)
next
  case (Inr ks)
  from map_err_length [OF Inr] list_all2_lengthD [OF r]
  have len: "length ks = length xs" "length ks = length ys" by simp_all
  have "list_all2 (\<lambda>p q. fst p = fst q \<and> R (snd p) (snd q)) (zip ks xs) (zip ks ys)"
    using r len by (auto simp: list_all2_conv_all_nth)
  then have "list_all2 (\<lambda>p q. fst p = fst q \<and> R (snd p) (snd q))
      (sort_desc (zip ks xs)) (sort_desc (zip ks ys))"
    by (rule sort_desc_rel)
  then have "list_all2 R (map snd (sort_desc (zip ks xs))) (map snd (sort_desc (zip ks ys)))"
    by (simp add: list_all2_map1 list_all2_map2 list_all2_mono)
  with Inr map_err_rel [OF r k] show ?thesis by (simp add: py_sorted_reverse_def)
qed

lemma py_slice_to_rel: "list_all2 R xs ys \<Longrightarrow> list_all2 R (py_slice_to n xs) (py_slice_to n ys)"
  using list_all2_lengthD [of R xs ys] by (simp add: py_slice_to_def)

subsection \<open>Dictionaries of new lists\<close>

lemma map_dict_set:
  "map (\<lambda>p. (fst p, v)) (dict_set d k a) = dict_set (map (\<lambda>p. (fst p, v)) d) k v"
  by (induction d) auto

lemma snd_dict_set: "snd ` set (dict_set d k a) \<subseteq> insert a (snd ` set d)"
  using set_dict_set [of d k a] by force

lemma distinct_snd_dict_set:
  "distinct (map snd d) \<Longrightarrow> a \<notin> snd ` set d \<Longrightarrow> distinct (map snd (dict_set d k a))"
proof (induction d)
  case Nil
  then show ?case by simp
next
  case (Cons p d)
  obtain k0 a0 where p: "p = (k0, a0)" by (cases p)
  show ?case
  proof (cases "k0 = k")
    case True
    with Cons.prems p show ?thesis by auto
  next
    case False
    from Cons.prems p have "a0 \<notin> insert a (snd ` set d)" by auto
    with snd_dict_set [of d k a] have "a0 \<notin> snd ` set (dict_set d k a)" by blast
    with False Cons p show ?thesis by auto
  qed
qed

lemma new_lists_props:
  assumes "list_all2 (\<lambda>q u. cells h q = Some (UserObj u)) qs us"
    and "wf_store h"
    and "distinct (map snd d0)"
    and "\<forall>a \<in> snd ` set d0. a < next_free h"
  shows "\<exists>d h'. new_lists ob qs d0 h = Inr (d, h')
           \<and> wf_store h' \<and> next_free h \<le> next_free h'
           \<and> (\<forall>b < next_free h. cells h' b = cells h b)
           \<and> distinct (map snd d)
           \<and> (\<forall>a \<in> snd ` set d. a < next_free h'
                 \<and> (a \<in> snd ` set d0 \<or> next_free h \<le> a \<and> cells h' a = Some ob))
           \<and> map (\<lambda>p. (fst p, v)) d
               = foldl (\<lambda>d u. dict_set d (user_Name u) v) (map (\<lambda>p. (fst p, v)) d0) us"
  using assms
proof (induction qs arbitrary: us d0 h)
  case Nil
  then show ?case by auto
next
  case (Cons q qs)
  from Cons.prems(1) obtain u us' where us: "us = u # us'"
    and q: "cells h q = Some (UserObj u)"
    and rest: "list_all2 (\<lambda>q u. cells h q = Some (UserObj u)) qs us'"
    by (auto simp: list_all2_Cons1)
  define a where "a = next_free h"
  define h1 where "h1 = snd (new ob h)"
  have n: "new ob h = (a, h1)" by (simp add: a_def h1_def new_def)
  note np = new_props [OF n]
  have wf1: "wf_store h1" using Cons.prems(2) n by (rule wf_store_new)
  have keep: "cells h1 b = cells h b" if "b < next_free h" for b
    using that np by auto
  let ?d1 = "dict_set d0 (user_Name u) a"
  have fresh: "a \<notin> snd ` set d0" using Cons.prems(4) by (auto simp: a_def)
  have d1: "distinct (map snd ?d1)"
    using Cons.prems(3) fresh by (rule distinct_snd_dict_set)
  have in1: "snd ` set ?d1 \<subseteq> insert a (snd ` set d0)" by (rule snd_dict_set)
  have b1: "\<forall>a' \<in> snd ` set ?d1. a' < next_free h1"
  proof
    fix a' assume "a' \<in> snd ` set ?d1"
    with in1 have "a' = a \<or> a' \<in> snd ` set d0" by blast
    with Cons.prems(4) have "a' \<le> next_free h" by (auto simp: a_def)
    with np show "a' < next_free h1" by simp
  qed
  have rest1: "list_all2 (\<lambda>q u. cells h1 q = Some (UserObj u)) qs us'"
  proof (rule list.rel_mono_strong [OF rest])
    fix q' u' assume "cells h q' = Some (UserObj u')"
    with wf_store_below [OF Cons.prems(2)] have "q' < next_free h" by blast
    with keep \<open>cells h q' = Some (UserObj u')\<close> show "cells h1 q' = Some (UserObj u')" by simp
  qed
  from Cons.IH [OF rest1 wf1 d1 b1]
  obtain d h' where r: "new_lists ob qs ?d1 h1 = Inr (d, h')"
    and wf': "wf_store h'" and le: "next_free h1 \<le> next_free h'"
    and fr: "\<forall>b < next_free h1. cells h' b = cells h1 b"
    and dd: "distinct (map snd d)"
    and mem: "\<forall>a' \<in> snd ` set d. a' < next_free h'
                 \<and> (a' \<in> snd ` set ?d1 \<or> next_free h1 \<le> a' \<and> cells h' a' = Some ob)"
    and mp: "map (\<lambda>p. (fst p, v)) d
               = foldl (\<lambda>d u. dict_set d (user_Name u) v) (map (\<lambda>p. (fst p, v)) ?d1) us'"
    by blast
  have run: "new_lists ob (q # qs) d0 h = Inr (d, h')"
    using q n r by simp
  have le': "next_free h \<le> next_free h'" using le np by simp
  have fr': "\<forall>b < next_free h. cells h' b = cells h b"
    using fr keep np by auto
  have mem': "\<forall>a' \<in> snd ` set d. a' < next_free h'
                 \<and> (a' \<in> snd ` set d0 \<or> next_free h \<le> a' \<and> cells h' a' = Some ob)"
  proof
    fix a' assume a': "a' \<in> snd ` set d"
    with mem have lt: "a' < next_free h'"
      and c: "a' \<in> snd ` set ?d1 \<or> next_free h1 \<le> a' \<and> cells h' a' = Some ob"
      by auto
    from c show "a' < next_free h' \<and> (a' \<in> snd ` set d0 \<or> next_free h \<le> a' \<and> cells h' a' = Some ob)"
    proof
      assume "a' \<in> snd ` set ?d1"
      with in1 have "a' = a \<or> a' \<in> snd ` set d0" by blast
      moreover have "cells h' a = Some ob" using fr np by auto
      ultimately show ?thesis using lt by (auto simp: a_def)
    next
      assume "next_free h1 \<le> a' \<and> cells h' a' = Some ob"
      with np lt show ?thesis by auto
    qed
  qed
  have mp': "map (\<lambda>p. (fst p, v)) d
      = foldl (\<lambda>d u. dict_set d (user_Name u) v) (map (\<lambda>p. (fst p, v)) d0) us"
    using mp by (simp add: us map_dict_set)
  from run wf' le' fr' dd mem' mp' show ?case by blast
qed

subsection \<open>A loop over the entries of a dictionary of lists\<close>

lemma for_entries_refines:
  fixes rep :: "obj \<Rightarrow> 'v \<Rightarrow> bool"
  assumes body: "\<And>k a v ob h. wf_store h \<Longrightarrow> (\<forall>b \<in> P. cells h b = c b) \<Longrightarrow> a \<notin> P \<Longrightarrow>
      cells h a = Some ob \<Longrightarrow> rep ob v \<Longrightarrow>
      rel_sum (=)
        (\<lambda>h' v'. wf_store h' \<and> next_free h \<le> next_free h'
           \<and> (\<forall>b. b < next_free h \<and> b \<noteq> a \<longrightarrow> cells h' b = cells h b)
           \<and> (\<exists>ob'. cells h' a = Some ob' \<and> rep ob' v'))
        (f k a h) (g k v)"
    and some: "\<forall>b \<in> P. c b \<noteq> None"
    and wf: "wf_store h"
    and prot: "\<forall>b \<in> P. cells h b = c b"
    and dist: "distinct (map snd d)"
    and out: "snd ` set d \<inter> P = {}"
    and reps: "list_all2 (\<lambda>p q. fst p = fst q \<and> (\<exists>ob. cells h (snd p) = Some ob \<and> rep ob (snd q))) d dv"
  shows "rel_sum (=)
           (\<lambda>h' res. wf_store h' \<and> next_free h \<le> next_free h'
              \<and> (\<forall>b. b < next_free h \<and> b \<notin> snd ` set d \<longrightarrow> cells h' b = cells h b)
              \<and> list_all2 (\<lambda>p q. fst p = fst q
                    \<and> (\<exists>ob. cells h' (snd p) = Some ob \<and> rep ob (snd q))) d res)
           (for_entries f d h) (for_items g dv)"
  using wf prot dist out reps
proof (induction d arbitrary: h dv)
  case Nil
  then show ?case by simp
next
  case (Cons p d)
  obtain k a where p: "p = (k, a)" by (cases p)
  from Cons.prems(5) p obtain v dv' ob where dv: "dv = (k, v) # dv'"
    and ob: "cells h a = Some ob" "rep ob v"
    and rest: "list_all2 (\<lambda>p q. fst p = fst q \<and> (\<exists>ob. cells h (snd p) = Some ob \<and> rep ob (snd q))) d dv'"
    by (auto simp: list_all2_Cons1)
  from Cons.prems(4) p have aP: "a \<notin> P" by auto
  note b = body [OF Cons.prems(1) Cons.prems(2) aP ob, of k]
  show ?case
  proof (cases "g k v")
    case (Inl e)
    with b have "f k a h = Inl e" by (cases "f k a h") simp_all
    with Inl p dv show ?thesis by simp
  next
    case (Inr v')
    with b obtain h1 where h1: "f k a h = Inr h1" and wf1: "wf_store h1"
      and le1: "next_free h \<le> next_free h1"
      and fr1: "\<forall>b. b < next_free h \<and> b \<noteq> a \<longrightarrow> cells h1 b = cells h b"
      and rep1: "\<exists>ob'. cells h1 a = Some ob' \<and> rep ob' v'"
      by (cases "f k a h") auto
    have below: "b < next_free h" if "cells h b = Some x" for b x
      using wf_store_below [OF Cons.prems(1) that] .
    have prot1: "\<forall>b \<in> P. cells h1 b = c b"
    proof
      fix b assume bP: "b \<in> P"
      with some Cons.prems(2) obtain x where "cells h b = Some x" by force
      from below [OF this] bP aP fr1 Cons.prems(2) show "cells h1 b = c b" by auto
    qed
    from Cons.prems(3) p have dist1: "distinct (map snd d)" and anot: "a \<notin> snd ` set d"
      by auto
    from Cons.prems(4) have out1: "snd ` set d \<inter> P = {}" by auto
    have rest1: "list_all2 (\<lambda>p q. fst p = fst q
        \<and> (\<exists>ob. cells h1 (snd p) = Some ob \<and> rep ob (snd q))) d dv'"
    proof (rule list.rel_mono_strong [OF rest])
      fix p' q' assume m: "p' \<in> set d"
        and r: "fst p' = fst q' \<and> (\<exists>ob. cells h (snd p') = Some ob \<and> rep ob (snd q'))"
      then obtain x where x: "cells h (snd p') = Some x" "rep x (snd q')" by blast
      from m anot have "snd p' \<noteq> a" by force
      with below [OF x(1)] fr1 have "cells h1 (snd p') = cells h (snd p')" by simp
      with r x show "fst p' = fst q' \<and> (\<exists>ob. cells h1 (snd p') = Some ob \<and> rep ob (snd q'))"
        by auto
    qed
    note ih = Cons.IH [OF wf1 prot1 dist1 out1 rest1]
    show ?thesis
    proof (cases "for_items g dv'")
      case (Inl e)
      with ih have "for_entries f d h1 = Inl e" by (cases "for_entries f d h1") simp_all
      with Inl Inr h1 p dv show ?thesis by simp
    next
      case r: (Inr res)
      with ih obtain h' where h': "for_entries f d h1 = Inr h'" and wf': "wf_store h'"
        and le': "next_free h1 \<le> next_free h'"
        and fr': "\<forall>b. b < next_free h1 \<and> b \<notin> snd ` set d \<longrightarrow> cells h' b = cells h1 b"
        and reps': "list_all2 (\<lambda>p q. fst p = fst q
            \<and> (\<exists>ob. cells h' (snd p) = Some ob \<and> rep ob (snd q))) d res"
        by (cases "for_entries f d h1") auto
      from below [OF ob(1)] le1 anot fr' have "cells h' a = cells h1 a" by simp
      with rep1 have head: "\<exists>ob. cells h' a = Some ob \<and> rep ob v'" by simp
      have frame: "\<forall>b. b < next_free h \<and> b \<notin> snd ` set (p # d) \<longrightarrow> cells h' b = cells h b"
        using fr1 fr' le1 p by auto
      from h1 h' r Inr p dv wf' le1 le' frame head reps' show ?thesis by simp
    qed
  qed
qed

subsection \<open>The bodies of the loops over the users\<close>

lemma item_play_count_cell:
  "cells h r = Some (ItemObj it) \<Longrightarrow> item_play_count h u r = play_count u it"
  by (simp add: item_play_count_def)

lemma extend_top_songs_refines:
  assumes cl: "c l = Some (ListObj rs)"
    and ci: "list_all2 (\<lambda>r it. c r = Some (ItemObj it)) rs its"
    and wf: "wf_store h"
    and prot: "\<forall>b \<in> insert l (set rs). cells h b = c b"
    and ob: "cells h a = Some ob"
    and rep: "\<exists>refs. ob = ListObj refs \<and> list_all2 (\<lambda>r it. (r, it) \<in> set (zip rs its)) refs v"
  shows "rel_sum (=)
           (\<lambda>h' v'. wf_store h' \<and> next_free h \<le> next_free h'
              \<and> (\<forall>b. b < next_free h \<and> b \<noteq> a \<longrightarrow> cells h' b = cells h b)
              \<and> (\<exists>ob'. cells h' a = Some ob'
                    \<and> (\<exists>refs. ob' = ListObj refs
                          \<and> list_all2 (\<lambda>r it. (r, it) \<in> set (zip rs its)) refs v')))
           (extend_top_songs l n k a h) (top_songs its n k v)"
proof -
  from rep ob obtain old where old: "cells h a = Some (ListObj old)"
    and ov: "list_all2 (\<lambda>r it. (r, it) \<in> set (zip rs its)) old v"
    by blast
  from prot cl have hl: "cells h l = Some (ListObj rs)" by simp
  have "list_all2 (\<lambda>r it. cells h r = Some (ItemObj it)) rs its"
  proof (rule list.rel_mono_strong [OF ci])
    fix r it assume "r \<in> set rs" "c r = Some (ItemObj it)"
    with prot show "cells h r = Some (ItemObj it)" by simp
  qed
  then have rel: "list_all2 (\<lambda>r it. cells h r = Some (ItemObj it) \<and> (r, it) \<in> set (zip rs its)) rs its"
    by (rule list_all2_zip_mem)
  have srt: "rel_sum (=)
      (list_all2 (\<lambda>r it. cells h r = Some (ItemObj it) \<and> (r, it) \<in> set (zip rs its)))
      (py_sorted_reverse (item_play_count h k) rs) (py_sorted_reverse (play_count k) its)"
    using rel by (rule py_sorted_reverse_rel) (simp add: item_play_count_cell)
  from wf_store_below [OF wf old] have a: "a < next_free h" .
  show ?thesis
  proof (cases "py_sorted_reverse (play_count k) its")
    case (Inl e)
    with srt have "py_sorted_reverse (item_play_count h k) rs = Inl e"
      by (cases "py_sorted_reverse (item_play_count h k) rs") simp_all
    with Inl hl show ?thesis by (simp add: extend_top_songs_def top_songs_def)
  next
    case (Inr s2)
    with srt obtain s1 where s1: "py_sorted_reverse (item_play_count h k) rs = Inr s1"
      and s12: "list_all2 (\<lambda>r it. cells h r = Some (ItemObj it) \<and> (r, it) \<in> set (zip rs its)) s1 s2"
      by (cases "py_sorted_reverse (item_play_count h k) rs") auto
    from s12 have "list_all2 (\<lambda>r it. (r, it) \<in> set (zip rs its)) s1 s2"
      by (rule list_all2_mono) simp
    then have "list_all2 (\<lambda>r it. (r, it) \<in> set (zip rs its))
        (py_slice_to n s1) (py_slice_to n s2)"
      by (rule py_slice_to_rel)
    with ov have app: "list_all2 (\<lambda>r it. (r, it) \<in> set (zip rs its))
        (old @ py_slice_to n s1) (v @ py_slice_to n s2)"
      by (rule list_all2_appendI)
    let ?h' = "put a (ListObj (old @ py_slice_to n s1))
        (snd (new (ListObj (py_slice_to n s1)) (snd (new (ListObj s1) h))))"
    have run: "extend_top_songs l n k a h = Inr ?h'"
      using hl s1 old a
      by (simp add: extend_top_songs_def new_def the_list_def)
    have "wf_store ?h'"
      using wf a by (auto simp: wf_store_def new_def put_def)
    moreover have "next_free h \<le> next_free ?h'"
      by (simp add: new_def put_def)
    moreover have "\<forall>b. b < next_free h \<and> b \<noteq> a \<longrightarrow> cells ?h' b = cells h b"
      by (simp add: new_def put_def)
    moreover have "cells ?h' a = Some (ListObj (old @ py_slice_to n s1))"
      by (simp add: new_def put_def)
    ultimately show ?thesis using run Inr app by (simp add: top_songs_def)
  qed
qed

lemma store_count_artists_refines:
  assumes "cells h r = Some (ItemObj it)" and "cells h t = Some (TotalsDict d)"
  shows "rel_sum (=) (\<lambda>h' d'. h' = put t (TotalsDict d') h)
           (store_count_artists k r t as h) (count_artists k it as d)"
  using assms
proof (induction as arbitrary: h d)
  case Nil
  then show ?case by (simp add: put_same)
next
  case (Cons a as)
  show ?case
  proof (cases "play_count k it")
    case (Inl e)
    with Cons.prems show ?thesis by (simp add: item_play_count_cell)
  next
    case (Inr cnt)
    let ?h1 = "put t (TotalsDict (add_plays d a cnt)) h"
    from Cons.prems have "r \<noteq> t" by auto
    with Cons.prems have 1: "cells ?h1 r = Some (ItemObj it)"
      and 2: "cells ?h1 t = Some (TotalsDict (add_plays d a cnt))"
      by (simp_all add: put_def)
    from Cons.IH [OF 1 2] Inr Cons.prems show ?thesis
      by (simp add: item_play_count_cell put_put)
  qed
qed

lemma store_bake_refines:
  assumes "list_all2 (\<lambda>r it. cells h r = Some (ItemObj it)) rs its"
    and "cells h t = Some (TotalsDict d)"
  shows "rel_sum (=) (\<lambda>h' d'. h' = put t (TotalsDict d') h)
           (store_bake k t rs h) (bake k its d)"
  using assms
proof (induction rs arbitrary: its h d)
  case Nil
  then show ?case by (simp add: put_same)
next
  case (Cons r rs)
  from Cons.prems(1) obtain it its' where its: "its = it # its'"
    and r: "cells h r = Some (ItemObj it)"
    and rest: "list_all2 (\<lambda>r it. cells h r = Some (ItemObj it)) rs its'"
    by (auto simp: list_all2_Cons1)
  note c = store_count_artists_refines [OF r Cons.prems(2), of k "Artists it"]
  show ?case
  proof (cases "count_artists k it (Artists it) d")
    case (Inl e)
    with c have "store_count_artists k r t (Artists it) h = Inl e"
      by (cases "store_count_artists k r t (Artists it) h") simp_all
    with Inl r its show ?thesis by simp
  next
    case (Inr d1)
    let ?h1 = "put t (TotalsDict d1) h"
    from Inr c have run: "store_count_artists k r t (Artists it) h = Inr ?h1"
      by (cases "store_count_artists k r t (Artists it) h") simp_all
    have rest1: "list_all2 (\<lambda>r it. cells ?h1 r = Some (ItemObj it)) rs its'"
    proof (rule list.rel_mono_strong [OF rest])
      fix r' it' assume "cells h r' = Some (ItemObj it')"
      with Cons.prems(2) have "r' \<noteq> t" by auto
      with \<open>cells h r' = Some (ItemObj it')\<close> show "cells ?h1 r' = Some (ItemObj it')"
        by (simp add: put_def)
    qed
    have t1: "cells ?h1 t = Some (TotalsDict d1)" by (simp add: put_def)
    from Cons.IH [OF rest1 t1] Inr run r its show ?thesis
      by (simp add: put_put)
  qed
qed

lemma extend_top_artists_refines:
  assumes cl: "c l = Some (ListObj rs)"
    and ci: "list_all2 (\<lambda>r it. c r = Some (ItemObj it)) rs its"
    and wf: "wf_store h"
    and prot: "\<forall>b \<in> insert l (set rs). cells h b = c b"
    and ob: "cells h a = Some ob"
    and rep: "ob = PairsObj v"
  shows "rel_sum (=)
           (\<lambda>h' v'. wf_store h' \<and> next_free h \<le> next_free h'
              \<and> (\<forall>b. b < next_free h \<and> b \<noteq> a \<longrightarrow> cells h' b = cells h b)
              \<and> (\<exists>ob'. cells h' a = Some ob' \<and> ob' = PairsObj v'))
           (extend_top_artists l m k a h) (top_artists its m k v)"
proof -
  define t where "t = next_free h"
  define h1 where "h1 = snd (new (TotalsDict []) h)"
  have n: "new (TotalsDict []) h = (t, h1)" by (simp add: t_def h1_def new_def)
  note np = new_props [OF n]
  from wf_store_below [OF wf] have below: "\<And>b x. cells h b = Some x \<Longrightarrow> b < next_free h" .
  from prot cl have hl: "cells h l = Some (ListObj rs)" by simp
  with below np have hl1: "cells h1 l = Some (ListObj rs)" by force
  have items1: "list_all2 (\<lambda>r it. cells h1 r = Some (ItemObj it)) rs its"
  proof (rule list.rel_mono_strong [OF ci])
    fix r it assume "r \<in> set rs" "c r = Some (ItemObj it)"
    with prot have "cells h r = Some (ItemObj it)" by simp
    with below np show "cells h1 r = Some (ItemObj it)" by force
  qed
  from np have t1: "cells h1 t = Some (TotalsDict [])" by blast
  note b = store_bake_refines [OF items1 t1, of k]
  from ob rep have a: "cells h a = Some (PairsObj v)" by simp
  from below [OF a] have alt: "a < next_free h" .
  show ?thesis
  proof (cases "bake k its []")
    case (Inl e)
    with b have "store_bake k t rs h1 = Inl e" by (cases "store_bake k t rs h1") simp_all
    with Inl n hl1 show ?thesis by (simp add: extend_top_artists_def top_artists_def)
  next
    case (Inr d')
    define h2 where "h2 = put t (TotalsDict d') h1"
    from Inr b have run: "store_bake k t rs h1 = Inr h2"
      by (cases "store_bake k t rs h1") (simp_all add: h2_def)
    have t2: "cells h2 t = Some (TotalsDict d')" by (simp add: h2_def put_def)
    have nf2: "next_free h2 = Suc (next_free h)" using np by (simp add: h2_def put_def)
    have keep2: "cells h2 b = cells h b" if "b < next_free h" for b
      using that np by (auto simp: h2_def put_def)
    have none2: "cells h2 b = None" if "next_free h2 \<le> b" for b
      using that np wf nf2 by (auto simp: h2_def put_def wf_store_def)
    show ?thesis
    proof (cases "py_sorted_reverse (\<lambda>x. Inr (snd x)) d'")
      case (Inl e)
      with Inr n hl1 run t2 show ?thesis
        by (simp add: extend_top_artists_def top_artists_def)
    next
      case s: (Inr s)
      define h3 where "h3 = snd (new (PairsObj s) h2)"
      define h4 where "h4 = snd (new (PairsObj (py_slice_to m s)) h3)"
      have n3: "new (PairsObj s) h2 = (next_free h2, h3)" by (simp add: h3_def new_def)
      have n4: "new (PairsObj (py_slice_to m s)) h3 = (next_free h3, h4)"
        by (simp add: h4_def new_def)
      note p3 = new_props [OF n3] and p4 = new_props [OF n4]
      let ?h' = "put a (PairsObj (v @ py_slice_to m s)) h4"
      have keep4: "cells h4 b = cells h b" if "b < next_free h" for b
        using that keep2 nf2 p3 p4 by auto
      have a4: "cells h4 a = Some (PairsObj v)" using keep4 [OF alt] a by simp
      have ex: "extend_top_artists l m k a h = Inr ?h'"
        using Inr n hl1 run t2 s n3 n4 a4
        by (simp add: extend_top_artists_def)
      have "wf_store ?h'"
      proof -
        have "wf_store h2" using none2 by (simp add: wf_store_def)
        then have "wf_store h4" using n3 n4 by (blast intro: wf_store_new)
        moreover have "a < next_free h4" using alt nf2 p3 p4 by simp
        ultimately show ?thesis by (rule wf_store_put)
      qed
      moreover have "next_free h \<le> next_free ?h'"
        using nf2 p3 p4 by (simp add: put_def)
      moreover have "\<forall>b. b < next_free h \<and> b \<noteq> a \<longrightarrow> cells ?h' b = cells h b"
        using keep4 by (simp add: put_def)
      moreover have "cells ?h' a = Some (PairsObj (v @ py_slice_to m s))"
        by (simp add: put_def)
      ultimately show ?thesis using ex Inr s by (simp add: top_artists_def)
    qed
  qed
qed

subsection \<open>The loops over the users\<close>

lemma lists_phase_refines:
  fixes rep :: "obj \<Rightarrow> 'v \<Rightarrow> bool"
  assumes body: "\<And>k a v ob' h'. wf_store h' \<Longrightarrow>
      (\<forall>b \<in> insert l (set rs). cells h' b = cells h b) \<Longrightarrow> a \<notin> insert l (set rs) \<Longrightarrow>
      cells h' a = Some ob' \<Longrightarrow> rep ob' v \<Longrightarrow>
      rel_sum (=)
        (\<lambda>h'' v'. wf_store h'' \<and> next_free h' \<le> next_free h''
           \<and> (\<forall>b. b < next_free h' \<and> b \<noteq> a \<longrightarrow> cells h'' b = cells h' b)
           \<and> (\<exists>ob''. cells h'' a = Some ob'' \<and> rep ob'' v'))
        (f k a h') (g k v)"
    and wf: "wf_store h"
    and hl: "cells h l = Some (ListObj rs)"
    and items: "list_all2 (\<lambda>r it. cells h r = Some (ItemObj it)) rs its"
    and hq: "cells h q = Some (ListObj qs)"
    and users: "list_all2 (\<lambda>q u. cells h q = Some (UserObj u)) qs us"
    and rep0: "rep ob vz"
  shows "rel_sum (=)
           (\<lambda>res' res. case res' of (ref, h') \<Rightarrow>
              wf_store h' \<and> next_free h \<le> next_free h'
              \<and> (\<forall>b < next_free h. cells h' b = cells h b)
              \<and> next_free h \<le> ref \<and> ref < next_free h'
              \<and> (\<exists>d. cells h' ref = Some (ListsDict d) \<and> distinct (map snd d)
                    \<and> ref \<notin> snd ` set d
                    \<and> (\<forall>a \<in> snd ` set d. next_free h \<le> a \<and> a < next_free h')
                    \<and> list_all2 (\<lambda>p q. fst p = fst q
                          \<and> (\<exists>ob'. cells h' (snd p) = Some ob' \<and> rep ob' (snd q))) d res))
           (case new_lists_dict ob q h of
              Inl e \<Rightarrow> Inl e
            | Inr (ref, h1) \<Rightarrow>
                (case the_lists_dict h1 ref of
                   Inl e \<Rightarrow> Inl e
                 | Inr d \<Rightarrow>
                     (case for_entries f d h1 of
                        Inl e \<Rightarrow> Inl e
                      | Inr h2 \<Rightarrow> Inr (ref, h2))))
           (for_items g (init_dict us vz))"
proof -
  have below: "b < next_free h" if "cells h b = Some x" for b x
    using wf_store_below [OF wf that] .
  from new_lists_props [OF users wf, of "[]" ob vz]
  obtain d h1 where nl: "new_lists ob qs [] h = Inr (d, h1)"
    and wf1: "wf_store h1" and le1: "next_free h \<le> next_free h1"
    and fr1: "\<forall>b < next_free h. cells h1 b = cells h b"
    and dd: "distinct (map snd d)"
    and mem: "\<forall>a \<in> snd ` set d. a < next_free h1 \<and> next_free h \<le> a \<and> cells h1 a = Some ob"
    and mp: "map (\<lambda>p. (fst p, vz)) d = init_dict us vz"
    by (auto simp: init_dict_def)
  define ref where "ref = next_free h1"
  define h2 where "h2 = snd (new (ListsDict d) h1)"
  have n: "new (ListsDict d) h1 = (ref, h2)" by (simp add: ref_def h2_def new_def)
  note np = new_props [OF n]
  have wf2: "wf_store h2" using wf1 n by (rule wf_store_new)
  have nld: "new_lists_dict ob q h = Inr (ref, h2)"
    using hq nl n by (simp add: new_lists_dict_def)
  have rd: "the_lists_dict h2 ref = Inr d" using np by auto
  have keep2: "cells h2 b = cells h b" if "b < next_free h" for b
    using that fr1 le1 np by auto
  have some: "\<forall>b \<in> insert l (set rs). cells h b \<noteq> None"
    using hl items by (auto simp: list_all2_conv_all_nth in_set_conv_nth)
  have prot: "\<forall>b \<in> insert l (set rs). cells h2 b = cells h b"
  proof
    fix b assume "b \<in> insert l (set rs)"
    with some obtain x where "cells h b = Some x" by blast
    from keep2 [OF below [OF this]] show "cells h2 b = cells h b" .
  qed
  have out: "snd ` set d \<inter> insert l (set rs) = {}"
  proof -
    have "b \<notin> snd ` set d" if "b \<in> insert l (set rs)" for b
    proof -
      from that some obtain x where "cells h b = Some x" by blast
      from below [OF this] mem show ?thesis by auto
    qed
    then show ?thesis by blast
  qed
  have reps: "list_all2 (\<lambda>p q. fst p = fst q \<and> (\<exists>ob'. cells h2 (snd p) = Some ob' \<and> rep ob' (snd q)))
      d (map (\<lambda>p. (fst p, vz)) d)"
  proof -
    have "cells h2 a = Some ob" if "a \<in> snd ` set d" for a
      using that mem np by (auto simp: ref_def)
    with rep0 show ?thesis by (auto simp: list_all2_map2 list_all2_same)
  qed
  have "rel_sum (=)
           (\<lambda>h' res. wf_store h' \<and> next_free h2 \<le> next_free h'
              \<and> (\<forall>b. b < next_free h2 \<and> b \<notin> snd ` set d \<longrightarrow> cells h' b = cells h2 b)
              \<and> list_all2 (\<lambda>p q. fst p = fst q
                    \<and> (\<exists>ob. cells h' (snd p) = Some ob \<and> rep ob (snd q))) d res)
           (for_entries f d h2) (for_items g (map (\<lambda>p. (fst p, vz)) d))"
    by (rule for_entries_refines [where P = "insert l (set rs)" and c = "cells h",
          OF _ some wf2 prot dd out reps])
       (rule body; assumption)
  note loop = this [unfolded mp]
  show ?thesis
  proof (cases "for_items g (init_dict us vz)")
    case (Inl e)
    from rel_sum_InlD [OF loop [unfolded Inl]] have "for_entries f d h2 = Inl e" .
    with Inl nld rd show ?thesis by simp
  next
    case (Inr res)
    from rel_sum_InrD [OF loop [unfolded Inr]]
    obtain h' where run: "for_entries f d h2 = Inr h'" and wf': "wf_store h'"
      and le': "next_free h2 \<le> next_free h'"
      and fr': "\<forall>b. b < next_free h2 \<and> b \<notin> snd ` set d \<longrightarrow> cells h' b = cells h2 b"
      and reps': "list_all2 (\<lambda>p q. fst p = fst q
          \<and> (\<exists>ob'. cells h' (snd p) = Some ob' \<and> rep ob' (snd q))) d res"
      by blast
    have 1: "next_free h \<le> next_free h'" using le1 le' np by simp
    have 2: "\<forall>b < next_free h. cells h' b = cells h b"
    proof (intro allI impI)
      fix b assume b: "b < next_free h"
      with mem have "b \<notin> snd ` set d" by auto
      moreover from b le1 np have "b < next_free h2" by simp
      ultimately show "cells h' b = cells h b" using fr' keep2 [OF b] by simp
    qed
    have refnot: "ref \<notin> snd ` set d" using mem by (auto simp: ref_def)
    from np have c2: "cells h2 ref = Some (ListsDict d)" by blast
    from np have lt2: "ref < next_free h2" by (simp add: ref_def)
    from fr' lt2 refnot have "cells h' ref = cells h2 ref" by blast
    with c2 have 3: "cells h' ref = Some (ListsDict d)" by simp
    have 4: "\<forall>a \<in> snd ` set d. next_free h \<le> a \<and> a < next_free h'"
      using mem le' np by auto
    have 5: "next_free h \<le> ref" using le1 by (simp add: ref_def)
    have 6: "ref < next_free h'" using lt2 le' by simp
    have "\<exists>d. cells h' ref = Some (ListsDict d) \<and> distinct (map snd d)
        \<and> ref \<notin> snd ` set d
        \<and> (\<forall>a \<in> snd ` set d. next_free h \<le> a \<and> a < next_free h')
        \<and> list_all2 (\<lambda>p q. fst p = fst q
              \<and> (\<exists>ob'. cells h' (snd p) = Some ob' \<and> rep ob' (snd q))) d res"
      using 3 4 dd refnot reps' by blast
    with run nld rd Inr wf' 1 2 5 6 show ?thesis by simp
  qed
qed

lemma view_items_cells:
  assumes "cells h a = Some (ListObj refs)"
    and "list_all2 (\<lambda>r it. cells h r = Some (ItemObj it)) refs v"
  shows "view_items h a = Some v"
proof -
  have "list_all2 (\<lambda>r it. item_at h r = Some it) refs v"
    using assms(2) by (rule list_all2_mono) (simp add: item_at_def)
  with assms(1) show ?thesis by (simp add: view_items_def those_map_Some)
qed

lemma view_items_iff:
  "(view_items h a = Some v)
     = (\<exists>refs. cells h a = Some (ListObj refs)
           \<and> list_all2 (\<lambda>r it. cells h r = Some (ItemObj it)) refs v)"
proof
  assume "view_items h a = Some v"
  then obtain refs where c: "cells h a = Some (ListObj refs)"
    and t: "list_all2 (\<lambda>r it. item_at h r = Some it) refs v"
    by (auto simp: view_items_def those_map_Some split: option.splits obj.splits)
  from t have "list_all2 (\<lambda>r it. cells h r = Some (ItemObj it)) refs v"
    by (rule list_all2_mono) (auto simp: item_at_def split: option.splits obj.splits)
  with c show "\<exists>refs. cells h a = Some (ListObj refs)
      \<and> list_all2 (\<lambda>r it. cells h r = Some (ItemObj it)) refs v" by blast
next
  assume "\<exists>refs. cells h a = Some (ListObj refs)
      \<and> list_all2 (\<lambda>r it. cells h r = Some (ItemObj it)) refs v"
  then show "view_items h a = Some v" by (auto intro: view_items_cells)
qed

lemma view_users_iff:
  "(view_users h a = Some v)
     = (\<exists>refs. cells h a = Some (ListObj refs)
           \<and> list_all2 (\<lambda>r u. cells h r = Some (UserObj u)) refs v)"
proof
  assume "view_users h a = Some v"
  then obtain refs where c: "cells h a = Some (ListObj refs)"
    and t: "list_all2 (\<lambda>r u. user_at h r = Some u) refs v"
    by (auto simp: view_users_def those_map_Some split: option.splits obj.splits)
  from t have "list_all2 (\<lambda>r u. cells h r = Some (UserObj u)) refs v"
    by (rule list_all2_mono) (auto simp: user_at_def split: option.splits obj.splits)
  with c show "\<exists>refs. cells h a = Some (ListObj refs)
      \<and> list_all2 (\<lambda>r u. cells h r = Some (UserObj u)) refs v" by blast
next
  assume "\<exists>refs. cells h a = Some (ListObj refs)
      \<and> list_all2 (\<lambda>r u. cells h r = Some (UserObj u)) refs v"
  then obtain refs where c: "cells h a = Some (ListObj refs)"
    and t: "list_all2 (\<lambda>r u. cells h r = Some (UserObj u)) refs v" by blast
  from t have "list_all2 (\<lambda>r u. user_at h r = Some u) refs v"
    by (rule list_all2_mono) (simp add: user_at_def)
  with c show "view_users h a = Some v" by (simp add: view_users_def those_map_Some)
qed

lemma store_find_songs_refines:
  assumes wf: "wf_store h"
    and hl: "cells h l = Some (ListObj rs)"
    and items: "list_all2 (\<lambda>r it. cells h r = Some (ItemObj it)) rs its"
    and hq: "cells h q = Some (ListObj qs)"
    and users: "list_all2 (\<lambda>q u. cells h q = Some (UserObj u)) qs us"
  shows "rel_sum (=)
           (\<lambda>res' res. case res' of (ref, h') \<Rightarrow>
              wf_store h' \<and> next_free h \<le> next_free h'
              \<and> (\<forall>b < next_free h. cells h' b = cells h b)
              \<and> view_songs h' ref = Some res
              \<and> distinct (ref # lists_of h' ref)
              \<and> (\<forall>a \<in> set (ref # lists_of h' ref). next_free h \<le> a \<and> a < next_free h'))
           (store_find_songs l q n h) (find_songs its us n)"
proof -
  let ?rep = "\<lambda>ob v. \<exists>refs. ob = ListObj refs \<and> list_all2 (\<lambda>r it. (r, it) \<in> set (zip rs its)) refs v"
  have rep0: "?rep (ListObj []) []" by simp
  have ph: "rel_sum (=)
           (\<lambda>res' res. case res' of (ref, h') \<Rightarrow>
              wf_store h' \<and> next_free h \<le> next_free h'
              \<and> (\<forall>b < next_free h. cells h' b = cells h b)
              \<and> next_free h \<le> ref \<and> ref < next_free h'
              \<and> (\<exists>d. cells h' ref = Some (ListsDict d) \<and> distinct (map snd d)
                    \<and> ref \<notin> snd ` set d
                    \<and> (\<forall>a \<in> snd ` set d. next_free h \<le> a \<and> a < next_free h')
                    \<and> list_all2 (\<lambda>p q. fst p = fst q
                          \<and> (\<exists>ob'. cells h' (snd p) = Some ob' \<and> ?rep ob' (snd q))) d res))
           (store_find_songs l q n h) (find_songs its us n)"
    unfolding store_find_songs_def find_songs_def
    by (rule lists_phase_refines [where rep = ?rep, OF _ wf hl items hq users rep0])
       (rule extend_top_songs_refines [where c = "cells h", OF hl items]; assumption)
  show ?thesis
  proof (cases "find_songs its us n")
    case (Inl e)
    from rel_sum_InlD [OF ph [unfolded Inl]]
    have "store_find_songs l q n h = Inl e" .
    with Inl show ?thesis by simp
  next
    case (Inr res)
    from rel_sum_InrD [OF ph [unfolded Inr]]
    obtain ref h' d where run: "store_find_songs l q n h = Inr (ref, h')"
      and wf': "wf_store h'" and le: "next_free h \<le> next_free h'"
      and fr: "\<forall>b < next_free h. cells h' b = cells h b"
      and lo: "next_free h \<le> ref" and hi: "ref < next_free h'"
      and cd: "cells h' ref = Some (ListsDict d)" and dd: "distinct (map snd d)"
      and refnot: "ref \<notin> snd ` set d"
      and mem: "\<forall>a \<in> snd ` set d. next_free h \<le> a \<and> a < next_free h'"
      and reps: "list_all2 (\<lambda>p q. fst p = fst q
          \<and> (\<exists>ob'. cells h' (snd p) = Some ob' \<and> ?rep ob' (snd q))) d res"
      by (auto simp only: split_paired_all prod.case)
    have cell: "cells h' r = Some (ItemObj it)" if "(r, it) \<in> set (zip rs its)" for r it
    proof -
      from list_all2_in_zip [OF items that] have c: "cells h r = Some (ItemObj it)" .
      from wf_store_below [OF wf c] fr c show ?thesis by simp
    qed
    have "list_all2 (\<lambda>p q. (case p of (k, l) \<Rightarrow> map_option (Pair k) (view_items h' l)) = Some q) d res"
    proof (rule list_all2_mono [OF reps])
      fix p q
      assume "fst p = fst q \<and> (\<exists>ob'. cells h' (snd p) = Some ob' \<and> ?rep ob' (snd q))"
      then obtain refs where k: "fst p = fst q"
        and c: "cells h' (snd p) = Some (ListObj refs)"
        and z: "list_all2 (\<lambda>r it. (r, it) \<in> set (zip rs its)) refs (snd q)"
        by blast
      from z have "list_all2 (\<lambda>r it. cells h' r = Some (ItemObj it)) refs (snd q)"
        by (rule list_all2_mono) (rule cell)
      with c have "view_items h' (snd p) = Some (snd q)" by (rule view_items_cells)
      with k show "(case p of (k, l) \<Rightarrow> map_option (Pair k) (view_items h' l)) = Some q"
        by (cases p, cases q) simp
    qed
    with cd have vw: "view_songs h' ref = Some res"
      by (simp add: view_songs_def those_map_Some)
    have lof: "lists_of h' ref = map snd d" using cd by (simp add: lists_of_def)
    have d1: "distinct (ref # lists_of h' ref)" using dd refnot by (simp add: lof)
    have d2: "\<forall>a \<in> set (ref # lists_of h' ref). next_free h \<le> a \<and> a < next_free h'"
    proof
      fix a assume "a \<in> set (ref # lists_of h' ref)"
      then have "a = ref \<or> a \<in> snd ` set d" by (simp add: lof)
      with lo hi mem show "next_free h \<le> a \<and> a < next_free h'" by blast
    qed
    from run Inr wf' le fr vw d1 d2 show ?thesis by simp
  qed
qed

lemma store_find_artists_refines:
  assumes wf: "wf_store h"
    and hl: "cells h l = Some (ListObj rs)"
    and items: "list_all2 (\<lambda>r it. cells h r = Some (ItemObj it)) rs its"
    and hq: "cells h q = Some (ListObj qs)"
    and users: "list_all2 (\<lambda>q u. cells h q = Some (UserObj u)) qs us"
  shows "rel_sum (=)
           (\<lambda>res' res. case res' of (ref, h') \<Rightarrow>
              wf_store h' \<and> next_free h \<le> next_free h'
              \<and> (\<forall>b < next_free h. cells h' b = cells h b)
              \<and> view_artists h' ref = Some res
              \<and> distinct (ref # lists_of h' ref)
              \<and> (\<forall>a \<in> set (ref # lists_of h' ref). next_free h \<le> a \<and> a < next_free h'))
           (store_find_artists l q m h) (find_artists its us m)"
proof -
  let ?rep = "\<lambda>ob (v::(string \<times> int) list). ob = PairsObj v"
  have rep0: "?rep (PairsObj []) []" by simp
  have ph: "rel_sum (=)
           (\<lambda>res' res. case res' of (ref, h') \<Rightarrow>
              wf_store h' \<and> next_free h \<le> next_free h'
              \<and> (\<forall>b < next_free h. cells h' b = cells h b)
              \<and> next_free h \<le> ref \<and> ref < next_free h'
              \<and> (\<exists>d. cells h' ref = Some (ListsDict d) \<and> distinct (map snd d)
                    \<and> ref \<notin> snd ` set d
                    \<and> (\<forall>a \<in> snd ` set d. next_free h \<le> a \<and> a < next_free h')
                    \<and> list_all2 (\<lambda>p q. fst p = fst q
                          \<and> (\<exists>ob'. cells h' (snd p) = Some ob' \<and> ?rep ob' (snd q))) d res))
           (store_find_artists l q m h) (find_artists its us m)"
    unfolding store_find_artists_def find_artists_def
    by (rule lists_phase_refines [where rep = ?rep, OF _ wf hl items hq users rep0])
       (rule extend_top_artists_refines [where c = "cells h", OF hl items]; assumption)
  show ?thesis
  proof (cases "find_artists its us m")
    case (Inl e)
    from rel_sum_InlD [OF ph [unfolded Inl]]
    have "store_find_artists l q m h = Inl e" .
    with Inl show ?thesis by simp
  next
    case (Inr res)
    from rel_sum_InrD [OF ph [unfolded Inr]]
    obtain ref h' d where run: "store_find_artists l q m h = Inr (ref, h')"
      and wf': "wf_store h'" and le: "next_free h \<le> next_free h'"
      and fr: "\<forall>b < next_free h. cells h' b = cells h b"
      and lo: "next_free h \<le> ref" and hi: "ref < next_free h'"
      and cd: "cells h' ref = Some (ListsDict d)" and dd: "distinct (map snd d)"
      and refnot: "ref \<notin> snd ` set d"
      and mem: "\<forall>a \<in> snd ` set d. next_free h \<le> a \<and> a < next_free h'"
      and reps: "list_all2 (\<lambda>p q. fst p = fst q
          \<and> (\<exists>ob'. cells h' (snd p) = Some ob' \<and> ?rep ob' (snd q))) d res"
      by (auto simp only: split_paired_all prod.case)
    have "list_all2 (\<lambda>p q. (case p of (k, l) \<Rightarrow> map_option (Pair k) (pairs_at h' l)) = Some q) d res"
    proof (rule list_all2_mono [OF reps])
      fix p q
      assume "fst p = fst q \<and> (\<exists>ob'. cells h' (snd p) = Some ob' \<and> ?rep ob' (snd q))"
      then show "(case p of (k, l) \<Rightarrow> map_option (Pair k) (pairs_at h' l)) = Some q"
        by (cases p, cases q) (auto simp: pairs_at_def)
    qed
    with cd have vw: "view_artists h' ref = Some res"
      by (simp add: view_artists_def those_map_Some)
    have lof: "lists_of h' ref = map snd d" using cd by (simp add: lists_of_def)
    have d1: "distinct (ref # lists_of h' ref)" using dd refnot by (simp add: lof)
    have d2: "\<forall>a \<in> set (ref # lists_of h' ref). next_free h \<le> a \<and> a < next_free h'"
    proof
      fix a assume "a \<in> set (ref # lists_of h' ref)"
      then have "a = ref \<or> a \<in> snd ` set d" by (simp add: lof)
      with lo hi mem show "next_free h \<le> a \<and> a < next_free h'" by blast
    qed
    from run Inr wf' le fr vw d1 d2 show ?thesis by simp
  qed
qed

subsection \<open>The minutes\<close>

lemma dict_set_same: "dict_get d k = Some v \<Longrightarrow> dict_set d k v = d"
  by (induction d) (auto simp: dict_get_def)

lemma dict_set_twice: "dict_set (dict_set d k v) k w = dict_set d k w"
  by (induction d) auto

lemma dict_get_append_new:
  "k \<notin> fst ` set pre \<Longrightarrow> dict_get (pre @ (k, v) # d) k = Some v"
  by (induction pre) (auto simp: dict_get_def)

lemma dict_set_append_new:
  "k \<notin> fst ` set pre \<Longrightarrow> dict_set (pre @ (k, v) # d) k w = pre @ (k, w) # d"
  by (induction pre) auto

lemma store_add_minutes_refines:
  assumes "list_all2 (\<lambda>r it. cells h r = Some (ItemObj it)) rs its"
    and "cells h t = Some (MinutesDict d)"
    and "dict_get d k = Some cur"
  shows "rel_sum (=) (\<lambda>h' v. h' = put t (MinutesDict (dict_set d k v)) h)
           (store_add_minutes k t rs h) (add_minutes k its cur)"
  using assms
proof (induction rs arbitrary: its h d cur)
  case Nil
  then show ?case by (simp add: dict_set_same put_same)
next
  case (Cons r rs)
  from Cons.prems(1) obtain it its' where its: "its = it # its'"
    and r: "cells h r = Some (ItemObj it)"
    and rest: "list_all2 (\<lambda>r it. cells h r = Some (ItemObj it)) rs its'"
    by (auto simp: list_all2_Cons1)
  from Cons.prems(3) have idx: "dict_index d k = Inr cur" by (simp add: dict_index_def)
  show ?case
  proof (cases "add_item_minutes k it cur")
    case (Inl e)
    with Cons.prems(2) idx r its show ?thesis by simp
  next
    case (Inr v)
    let ?h1 = "put t (MinutesDict (dict_set d k v)) h"
    have rest1: "list_all2 (\<lambda>r it. cells ?h1 r = Some (ItemObj it)) rs its'"
    proof (rule list.rel_mono_strong [OF rest])
      fix r' it' assume c: "cells h r' = Some (ItemObj it')"
      with Cons.prems(2) have "r' \<noteq> t" by auto
      with c show "cells ?h1 r' = Some (ItemObj it')" by (simp add: put_def)
    qed
    have t1: "cells ?h1 t = Some (MinutesDict (dict_set d k v))" by (simp add: put_def)
    have g1: "dict_get (dict_set d k v) k = Some v" by (simp add: dict_get_set)
    from Cons.IH [OF rest1 t1 g1] Inr Cons.prems(2) idx r its show ?thesis
      by (simp add: put_put dict_set_twice)
  qed
qed

lemma for_keys_refines:
  assumes "cells h l = Some (ListObj rs)"
    and "list_all2 (\<lambda>r it. cells h r = Some (ItemObj it)) rs its"
    and "cells h t = Some (MinutesDict (pre @ dv))"
    and "distinct (map fst (pre @ dv))"
  shows "rel_sum (=) (\<lambda>h' res. h' = put t (MinutesDict (pre @ res)) h)
           (for_keys (minutes_of_user l t) (map fst dv) h)
           (for_items (\<lambda>u minutes. add_minutes u its minutes) dv)"
  using assms
proof (induction dv arbitrary: pre h)
  case Nil
  then show ?case by (simp add: put_same)
next
  case (Cons p dv)
  obtain k v where p: "p = (k, v)" by (cases p)
  from Cons.prems(4) p have knew: "k \<notin> fst ` set pre" by auto
  from knew have g: "dict_get (pre @ (k, v) # dv) k = Some v" by (rule dict_get_append_new)
  note a = store_add_minutes_refines
    [OF Cons.prems(2) Cons.prems(3) [unfolded p] g]
  have mu: "minutes_of_user l t k h = store_add_minutes k t rs h"
    using Cons.prems(1) by (simp add: minutes_of_user_def)
  show ?case
  proof (cases "add_minutes k its v")
    case (Inl e)
    from rel_sum_InlD [OF a [unfolded Inl]] Inl mu p show ?thesis by simp
  next
    case (Inr v')
    define h1 where "h1 = put t (MinutesDict ((pre @ [(k, v')]) @ dv)) h"
    from rel_sum_InrD [OF a [unfolded Inr]] knew
    have run: "store_add_minutes k t rs h = Inr h1"
      by (simp add: dict_set_append_new h1_def)
    from Cons.prems(1,3) have "l \<noteq> t" by auto
    with Cons.prems(1) have l1: "cells h1 l = Some (ListObj rs)" by (simp add: h1_def put_def)
    have i1: "list_all2 (\<lambda>r it. cells h1 r = Some (ItemObj it)) rs its"
    proof (rule list.rel_mono_strong [OF Cons.prems(2)])
      fix r' it' assume c: "cells h r' = Some (ItemObj it')"
      with Cons.prems(3) have "r' \<noteq> t" by auto
      with c show "cells h1 r' = Some (ItemObj it')" by (simp add: h1_def put_def)
    qed
    have t1: "cells h1 t = Some (MinutesDict ((pre @ [(k, v')]) @ dv))"
      by (simp add: h1_def put_def)
    have d1: "distinct (map fst ((pre @ [(k, v')]) @ dv))"
      using Cons.prems(4) p by simp
    note ih = Cons.IH [OF l1 i1 t1 d1]
    show ?thesis
    proof (cases "for_items (\<lambda>u minutes. add_minutes u its minutes) dv")
      case (Inl e)
      from rel_sum_InlD [OF ih [unfolded Inl]] Inl Inr mu run p show ?thesis by simp
    next
      case r: (Inr res)
      from rel_sum_InrD [OF ih [unfolded r]]
      have "for_keys (minutes_of_user l t) (map fst dv) h1
          = Inr (put t (MinutesDict (pre @ (k, v') # res)) h)"
        by (simp add: h1_def put_put)
      with r Inr mu run p show ?thesis by simp
    qed
  qed
qed

lemma map_err_the_user:
  "list_all2 (\<lambda>q u. cells h q = Some (UserObj u)) qs us \<Longrightarrow> map_err (the_user h) qs = Inr us"
  by (induction qs us rule: list_all2_induct) simp_all

lemma store_find_minutes_refines:
  assumes wf: "wf_store h"
    and hl: "cells h l = Some (ListObj rs)"
    and items: "list_all2 (\<lambda>r it. cells h r = Some (ItemObj it)) rs its"
    and hq: "cells h q = Some (ListObj qs)"
    and users: "list_all2 (\<lambda>q u. cells h q = Some (UserObj u)) qs us"
  shows "rel_sum (=)
           (\<lambda>res' res. case res' of (ref, h') \<Rightarrow>
              wf_store h' \<and> next_free h \<le> next_free h'
              \<and> (\<forall>b < next_free h. cells h' b = cells h b)
              \<and> view_minutes h' ref = Some res
              \<and> next_free h \<le> ref \<and> ref < next_free h')
           (store_find_minutes l q h) (find_minutes its us)"
proof -
  define t where "t = next_free h"
  define h1 where "h1 = snd (new (MinutesDict (init_dict us 0)) h)"
  have n: "new (MinutesDict (init_dict us 0)) h = (t, h1)" by (simp add: t_def h1_def new_def)
  note np = new_props [OF n]
  have wf1: "wf_store h1" using wf n by (rule wf_store_new)
  from wf_store_below [OF wf] have below: "\<And>b x. cells h b = Some x \<Longrightarrow> b < next_free h" .
  from hl below np have l1: "cells h1 l = Some (ListObj rs)" by force
  have i1: "list_all2 (\<lambda>r it. cells h1 r = Some (ItemObj it)) rs its"
  proof (rule list.rel_mono_strong [OF items])
    fix r it assume "cells h r = Some (ItemObj it)"
    with below np show "cells h1 r = Some (ItemObj it)" by force
  qed
  from np have "cells h1 t = Some (MinutesDict (init_dict us 0))" by blast
  then have t1: "cells h1 t = Some (MinutesDict ([] @ init_dict us 0))" by simp
  have d1: "distinct (map fst ([] @ init_dict us (0::rat)))" by (simp add: init_dict_props)
  note loop = for_keys_refines [OF l1 i1 t1 d1]
  have start: "store_find_minutes l q h
      = (case for_keys (minutes_of_user l t) (map fst (init_dict us (0::rat))) h1 of
           Inl e \<Rightarrow> Inl e | Inr h2 \<Rightarrow> Inr (t, h2))"
    using hq map_err_the_user [OF users] n by (simp add: store_find_minutes_def)
  show ?thesis
  proof (cases "find_minutes its us")
    case (Inl e)
    from rel_sum_InlD [OF loop [folded find_minutes_def, unfolded Inl]] Inl start
    show ?thesis by simp
  next
    case (Inr res)
    define h' where "h' = put t (MinutesDict res) h1"
    from rel_sum_InrD [OF loop [folded find_minutes_def, unfolded Inr]]
    have run: "for_keys (minutes_of_user l t) (map fst (init_dict us (0::rat))) h1 = Inr h'"
      by (simp add: h'_def)
    have tl: "t < next_free h1" using np by simp
    have 1: "wf_store h'" unfolding h'_def using wf1 tl by (rule wf_store_put)
    have 2: "next_free h' = Suc (next_free h)" using np by (simp add: h'_def put_def)
    have 3: "\<forall>b < next_free h. cells h' b = cells h b"
      using np by (auto simp: h'_def put_def)
    have 4: "view_minutes h' t = Some res" by (simp add: view_minutes_def h'_def put_def)
    from start run Inr 1 2 3 4 show ?thesis by (simp add: t_def)
  qed
qed

subsection \<open>Objects that stay\<close>

lemma view_items_mono:
  assumes "\<And>a x. cells h a = Some x \<Longrightarrow> cells h' a = Some x"
    and "view_items h l = Some v"
  shows "view_items h' l = Some v"
proof -
  from assms(2) obtain refs where c: "cells h l = Some (ListObj refs)"
    and t: "list_all2 (\<lambda>r it. cells h r = Some (ItemObj it)) refs v"
    by (auto simp: view_items_iff)
  from t have "list_all2 (\<lambda>r it. cells h' r = Some (ItemObj it)) refs v"
    by (rule list_all2_mono) (rule assms(1))
  with assms(1) [OF c] show ?thesis by (auto simp: view_items_iff)
qed

lemma view_users_mono:
  assumes "\<And>a x. cells h a = Some x \<Longrightarrow> cells h' a = Some x"
    and "view_users h l = Some v"
  shows "view_users h' l = Some v"
proof -
  from assms(2) obtain refs where c: "cells h l = Some (ListObj refs)"
    and t: "list_all2 (\<lambda>r u. cells h r = Some (UserObj u)) refs v"
    by (auto simp: view_users_iff)
  from t have "list_all2 (\<lambda>r u. cells h' r = Some (UserObj u)) refs v"
    by (rule list_all2_mono) (rule assms(1))
  with assms(1) [OF c] show ?thesis by (auto simp: view_users_iff)
qed

lemma view_songs_cell:
  "view_songs h a = Some v \<Longrightarrow> \<exists>d. cells h a = Some (ListsDict d)"
  by (auto simp: view_songs_def split: option.splits obj.splits)

lemma view_artists_cell:
  "view_artists h a = Some v \<Longrightarrow> \<exists>d. cells h a = Some (ListsDict d)"
  by (auto simp: view_artists_def split: option.splits obj.splits)

lemma view_songs_mono:
  assumes ext: "\<And>a x. cells h a = Some x \<Longrightarrow> cells h' a = Some x"
    and v: "view_songs h a = Some v"
  shows "view_songs h' a = Some v \<and> lists_of h' a = lists_of h a"
proof -
  from view_songs_cell [OF v] obtain d where c: "cells h a = Some (ListsDict d)" by blast
  with v have "list_all2 (\<lambda>p q. (case p of (k, l) \<Rightarrow> map_option (Pair k) (view_items h l)) = Some q) d v"
    by (simp add: view_songs_def those_map_Some)
  then have "list_all2 (\<lambda>p q. (case p of (k, l) \<Rightarrow> map_option (Pair k) (view_items h' l)) = Some q) d v"
  proof (rule list_all2_mono)
    fix p q
    assume "(case p of (k, l) \<Rightarrow> map_option (Pair k) (view_items h l)) = Some q"
    then obtain w where "view_items h (snd p) = Some w" and q: "q = (fst p, w)"
      by (cases p) auto
    from view_items_mono [OF ext this(1)] q
    show "(case p of (k, l) \<Rightarrow> map_option (Pair k) (view_items h' l)) = Some q"
      by (cases p) simp
  qed
  with ext [OF c] c show ?thesis by (simp add: view_songs_def those_map_Some lists_of_def)
qed

lemma view_artists_mono:
  assumes ext: "\<And>a x. cells h a = Some x \<Longrightarrow> cells h' a = Some x"
    and v: "view_artists h a = Some v"
  shows "view_artists h' a = Some v \<and> lists_of h' a = lists_of h a"
proof -
  from view_artists_cell [OF v] obtain d where c: "cells h a = Some (ListsDict d)" by blast
  with v have "list_all2 (\<lambda>p q. (case p of (k, l) \<Rightarrow> map_option (Pair k) (pairs_at h l)) = Some q) d v"
    by (simp add: view_artists_def those_map_Some)
  then have "list_all2 (\<lambda>p q. (case p of (k, l) \<Rightarrow> map_option (Pair k) (pairs_at h' l)) = Some q) d v"
  proof (rule list_all2_mono)
    fix p q
    assume "(case p of (k, l) \<Rightarrow> map_option (Pair k) (pairs_at h l)) = Some q"
    then obtain w where "cells h (snd p) = Some (PairsObj w)" and q: "q = (fst p, w)"
      by (cases p) (auto simp: pairs_at_def split: option.splits obj.splits)
    from ext [OF this(1)] q
    show "(case p of (k, l) \<Rightarrow> map_option (Pair k) (pairs_at h' l)) = Some q"
      by (cases p) (simp add: pairs_at_def)
  qed
  with ext [OF c] c show ?thesis by (simp add: view_artists_def those_map_Some lists_of_def)
qed

lemma frame_ext:
  assumes "wf_store h" and "\<forall>b < next_free h. cells h' b = cells h b"
    and "cells h a = Some x"
  shows "cells h' a = Some x"
  using assms wf_store_below [OF assms(1) assms(3)] by simp

subsection \<open>The three loops\<close>

lemma store_aggregate_refines:
  assumes wf: "wf_store h"
    and vi: "view_items h l = Some its"
    and vu: "view_users h q = Some us"
  shows "rel_sum (=)
           (\<lambda>res' s. case res' of ((songs, artists, minutes), h') \<Rightarrow>
              wf_store h' \<and> next_free h \<le> next_free h'
              \<and> (\<forall>b < next_free h. cells h' b = cells h b)
              \<and> view_songs h' songs = Some (most_listened_songs s)
              \<and> view_artists h' artists = Some (most_listened_artists s)
              \<and> view_minutes h' minutes = Some (minutes_listened s)
              \<and> distinct (result_objects h' songs artists minutes)
              \<and> (\<forall>a \<in> set (result_objects h' songs artists minutes). next_free h \<le> a))
           (store_aggregate n m l q h) (aggregate n m (start its us))"
proof -
  from vi obtain rs where hl: "cells h l = Some (ListObj rs)"
    and items: "list_all2 (\<lambda>r it. cells h r = Some (ItemObj it)) rs its"
    by (auto simp: view_items_iff)
  from vu obtain qs where hq: "cells h q = Some (ListObj qs)"
    and users: "list_all2 (\<lambda>q u. cells h q = Some (UserObj u)) qs us"
    by (auto simp: view_users_iff)
  note p1 = store_find_songs_refines [OF wf hl items hq users, of n]
  show ?thesis
  proof (cases "find_songs its us n")
    case (Inl e)
    from rel_sum_InlD [OF p1 [unfolded Inl]] Inl show ?thesis
      by (simp add: store_aggregate_def aggregate_def start_def)
  next
    case s1: (Inr ds)
    from rel_sum_InrD [OF p1 [unfolded s1]]
    obtain songs h1 where r1: "store_find_songs l q n h = Inr (songs, h1)"
      and wf1: "wf_store h1" and le1: "next_free h \<le> next_free h1"
      and fr1: "\<forall>b < next_free h. cells h1 b = cells h b"
      and v1: "view_songs h1 songs = Some ds"
      and d1: "distinct (songs # lists_of h1 songs)"
      and m1: "\<forall>a \<in> set (songs # lists_of h1 songs). next_free h \<le> a \<and> a < next_free h1"
      by (auto simp only: split_paired_all prod.case)
    have e1: "cells h1 a = Some x" if "cells h a = Some x" for a x
      using wf fr1 that by (rule frame_ext)
    have hl1: "cells h1 l = Some (ListObj rs)" using hl by (rule e1)
    have hq1: "cells h1 q = Some (ListObj qs)" using hq by (rule e1)
    have items1: "list_all2 (\<lambda>r it. cells h1 r = Some (ItemObj it)) rs its"
      using items by (rule list_all2_mono) (rule e1)
    have users1: "list_all2 (\<lambda>q u. cells h1 q = Some (UserObj u)) qs us"
      using users by (rule list_all2_mono) (rule e1)
    note p2 = store_find_artists_refines [OF wf1 hl1 items1 hq1 users1, of m]
    show ?thesis
    proof (cases "find_artists its us m")
      case (Inl e)
      from rel_sum_InlD [OF p2 [unfolded Inl]] Inl s1 r1 show ?thesis
        by (simp add: store_aggregate_def aggregate_def start_def)
    next
      case s2: (Inr da)
      from rel_sum_InrD [OF p2 [unfolded s2]]
      obtain artists h2 where r2: "store_find_artists l q m h1 = Inr (artists, h2)"
        and wf2: "wf_store h2" and le2: "next_free h1 \<le> next_free h2"
        and fr2: "\<forall>b < next_free h1. cells h2 b = cells h1 b"
        and v2: "view_artists h2 artists = Some da"
        and d2: "distinct (artists # lists_of h2 artists)"
        and m2: "\<forall>a \<in> set (artists # lists_of h2 artists). next_free h1 \<le> a \<and> a < next_free h2"
        by (auto simp only: split_paired_all prod.case)
      have e2: "cells h2 a = Some x" if "cells h1 a = Some x" for a x
        using wf1 fr2 that by (rule frame_ext)
      have hl2: "cells h2 l = Some (ListObj rs)" using hl1 by (rule e2)
      have hq2: "cells h2 q = Some (ListObj qs)" using hq1 by (rule e2)
      have items2: "list_all2 (\<lambda>r it. cells h2 r = Some (ItemObj it)) rs its"
        using items1 by (rule list_all2_mono) (rule e2)
      have users2: "list_all2 (\<lambda>q u. cells h2 q = Some (UserObj u)) qs us"
        using users1 by (rule list_all2_mono) (rule e2)
      note p3 = store_find_minutes_refines [OF wf2 hl2 items2 hq2 users2]
      show ?thesis
      proof (cases "find_minutes its us")
        case (Inl e)
        from rel_sum_InlD [OF p3 [unfolded Inl]] Inl s1 r1 s2 r2 show ?thesis
          by (simp add: store_aggregate_def aggregate_def start_def)
      next
        case s3: (Inr dm)
        from rel_sum_InrD [OF p3 [unfolded s3]]
        obtain minutes h3 where r3: "store_find_minutes l q h2 = Inr (minutes, h3)"
          and wf3: "wf_store h3" and le3: "next_free h2 \<le> next_free h3"
          and fr3: "\<forall>b < next_free h2. cells h3 b = cells h2 b"
          and v3: "view_minutes h3 minutes = Some dm"
          and m3: "next_free h2 \<le> minutes" "minutes < next_free h3"
          by (auto simp only: split_paired_all prod.case)
        have e3: "cells h3 a = Some x" if "cells h2 a = Some x" for a x
          using wf2 fr3 that by (rule frame_ext)
        have run: "store_aggregate n m l q h = Inr ((songs, artists, minutes), h3)"
          using r1 r2 r3 by (simp add: store_aggregate_def)
        have agg: "aggregate n m (start its us)
            = Inr ((start its us)\<lparr>most_listened_songs := ds, most_listened_artists := da,
                                  minutes_listened := dm\<rparr>)"
          using s1 s2 s3 by (simp add: aggregate_def start_def)
        have 1: "next_free h \<le> next_free h3" using le1 le2 le3 by simp
        have 2: "\<forall>b < next_free h. cells h3 b = cells h b"
          using fr1 fr2 fr3 le1 le2 by simp
        from view_songs_mono [OF e2 v1]
        have v12: "view_songs h2 songs = Some ds" and l12: "lists_of h2 songs = lists_of h1 songs"
          by simp_all
        from view_songs_mono [OF e3 v12] l12
        have 3: "view_songs h3 songs = Some ds" and l13: "lists_of h3 songs = lists_of h1 songs"
          by simp_all
        from view_artists_mono [OF e3 v2]
        have 4: "view_artists h3 artists = Some da"
          and l23: "lists_of h3 artists = lists_of h2 artists"
          by simp_all
        have 5: "distinct (result_objects h3 songs artists minutes)"
        proof -
          have "set (songs # lists_of h1 songs) \<inter> set (artists # lists_of h2 artists) = {}"
            using m1 m2 by fastforce
          moreover have "minutes \<notin> set (songs # lists_of h1 songs)"
            using m1 m3(1) le2 by fastforce
          moreover have "minutes \<notin> set (artists # lists_of h2 artists)"
            using m2 m3(1) by fastforce
          ultimately show ?thesis using d1 d2
            by (simp add: result_objects_def l13 l23)
        qed
        have 6: "\<forall>a \<in> set (result_objects h3 songs artists minutes). next_free h \<le> a"
        proof
          fix a assume "a \<in> set (result_objects h3 songs artists minutes)"
          then have "a \<in> set (songs # lists_of h1 songs) \<or> a \<in> set (artists # lists_of h2 artists)
              \<or> a = minutes"
            by (auto simp: result_objects_def l13 l23)
          with m1 m2 m3(1) le1 le2 show "next_free h \<le> a" by fastforce
        qed
        from run agg wf3 1 2 3 4 v3 5 6 show ?thesis by simp
      qed
    qed
  qed
qed

lemma aggregate_per_user:
  assumes "aggregate n m (start its us) = Inr s" and u: "u \<in> set us"
  shows "\<exists>sl al mv.
           dict_get (most_listened_songs s) (user_Name u) = Some sl
           \<and> top_songs its n (user_Name u) [] = Inr sl
           \<and> dict_get (most_listened_artists s) (user_Name u) = Some al
           \<and> top_artists its m (user_Name u) [] = Inr al
           \<and> dict_get (minutes_listened s) (user_Name u) = Some mv
           \<and> add_minutes (user_Name u) its 0 = Inr mv"
proof -
  from assms(1) obtain ds da dm where
    ds: "for_items (top_songs its n) (init_dict us []) = Inr ds"
    and da: "for_items (top_artists its m) (init_dict us []) = Inr da"
    and dm: "for_items (\<lambda>u minutes. add_minutes u its minutes) (init_dict us 0) = Inr dm"
    and s: "most_listened_songs s = ds" "most_listened_artists s = da" "minutes_listened s = dm"
    by (auto simp: aggregate_def start_def find_songs_def find_artists_def find_minutes_def
        split: sum.splits)
  from for_items_get [OF ds init_dict_props(1) init_dict_props(2) [OF u]]
    for_items_get [OF da init_dict_props(1) init_dict_props(2) [OF u]]
    for_items_get [OF dm init_dict_props(1) init_dict_props(2) [OF u]]
  show ?thesis using s by blast
qed

text \<open>
  C8. Let the store be well formed, let \<open>item_data\<close> and \<open>users\<close> refer to a list of
  items and a list of users, and let lines 166-190 complete. Then every object that was
  in the store when line 166 was reached is the same afterwards: the items (with their
  artist lists and user data), the users and the two lists are unchanged. The objects of
  the results (the three dictionaries and, for each user name, one song list and one
  artist list) are new and pairwise distinct, so no list is held for two users or by two
  dictionaries. What they hold is what the aggregation on values gives, and for every
  user the entries are the results of line 171, of lines 177-184 and of lines 189-190
  for this user alone, started from an empty list, an empty dictionary \<open>artists\<close> and
  0: nothing accumulated for one user enters the results of another.
\<close>

theorem aggregation_frame:
  assumes wf: "wf_store h"
    and vi: "view_items h item_data_ref = Some its"
    and vu: "view_users h users_ref = Some us"
    and run: "store_aggregate n m item_data_ref users_ref h = Inr ((songs, artists, minutes), h')"
  shows "(\<forall>a. a < next_free h \<longrightarrow> cells h' a = cells h a)
         \<and> view_items h' item_data_ref = Some its
         \<and> view_users h' users_ref = Some us
         \<and> distinct (result_objects h' songs artists minutes)
         \<and> (\<forall>a \<in> set (result_objects h' songs artists minutes). next_free h \<le> a)
         \<and> (\<exists>s. aggregate n m (start its us) = Inr s
               \<and> view_songs h' songs = Some (most_listened_songs s)
               \<and> view_artists h' artists = Some (most_listened_artists s)
               \<and> view_minutes h' minutes = Some (minutes_listened s)
               \<and> (\<forall>u \<in> set us. \<exists>sl al mv.
                      dict_get (most_listened_songs s) (user_Name u) = Some sl
                      \<and> top_songs its n (user_Name u) [] = Inr sl
                      \<and> dict_get (most_listened_artists s) (user_Name u) = Some al
                      \<and> top_artists its m (user_Name u) [] = Inr al
                      \<and> dict_get (minutes_listened s) (user_Name u) = Some mv
                      \<and> add_minutes (user_Name u) its 0 = Inr mv))"
proof -
  note r = store_aggregate_refines [OF wf vi vu, of n m, unfolded run]
  obtain s where agg: "aggregate n m (start its us) = Inr s"
    using r by (cases "aggregate n m (start its us)") auto
  from r [unfolded agg]
  have fr: "\<forall>b < next_free h. cells h' b = cells h b"
    and v1: "view_songs h' songs = Some (most_listened_songs s)"
    and v2: "view_artists h' artists = Some (most_listened_artists s)"
    and v3: "view_minutes h' minutes = Some (minutes_listened s)"
    and d: "distinct (result_objects h' songs artists minutes)"
    and m: "\<forall>a \<in> set (result_objects h' songs artists minutes). next_free h \<le> a"
    by simp_all
  have e: "cells h' a = Some x" if "cells h a = Some x" for a x
    using wf fr that by (rule frame_ext)
  have 1: "view_items h' item_data_ref = Some its" using e vi by (rule view_items_mono)
  have 2: "view_users h' users_ref = Some us" using e vu by (rule view_users_mono)
  have 3: "\<forall>u \<in> set us. \<exists>sl al mv.
      dict_get (most_listened_songs s) (user_Name u) = Some sl
      \<and> top_songs its n (user_Name u) [] = Inr sl
      \<and> dict_get (most_listened_artists s) (user_Name u) = Some al
      \<and> top_artists its m (user_Name u) [] = Inr al
      \<and> dict_get (minutes_listened s) (user_Name u) = Some mv
      \<and> add_minutes (user_Name u) its 0 = Inr mv"
    using aggregate_per_user [OF agg] by blast
  from fr 1 2 d m agg v1 v2 v3 3 show ?thesis by blast
qed

text \<open>
  The theorem at the example store, with one top song and one top artist: the run
  completes, the six objects of the input are unchanged, and the results are those of
  the two users.
\<close>

theorem aggregation_frame_witness:
  "wf_store example_store
   \<and> view_items example_store 2
       = Some [song ''S1'' [''A''] 120000000 [(''ann'', 1), (''bo'', 0)],
               song ''S2'' [''B''] 60000000 [(''ann'', 0), (''bo'', 3)]]
   \<and> view_users example_store 5 = Some [person ''ann'', person ''bo'']
   \<and> (\<exists>songs artists minutes h'.
         store_aggregate 1 1 2 5 example_store = Inr ((songs, artists, minutes), h')
         \<and> (\<forall>a < 6. cells h' a = cells example_store a)
         \<and> view_items h' 2
             = Some [song ''S1'' [''A''] 120000000 [(''ann'', 1), (''bo'', 0)],
                     song ''S2'' [''B''] 60000000 [(''ann'', 0), (''bo'', 3)]]
         \<and> view_users h' 5 = Some [person ''ann'', person ''bo'']
         \<and> distinct (result_objects h' songs artists minutes)
         \<and> (\<forall>a \<in> set (result_objects h' songs artists minutes). 6 \<le> a)
         \<and> view_songs h' songs
             = Some [(''ann'', [song ''S1'' [''A''] 120000000 [(''ann'', 1), (''bo'', 0)]]),
                     (''bo'', [song ''S2'' [''B''] 60000000 [(''ann'', 0), (''bo'', 3)]])]
         \<and> view_artists h' artists = Some [(''ann'', [(''A'', 1)]), (''bo'', [(''B'', 3)])]
         \<and> view_minutes h' minutes = Some [(''ann'', 2), (''bo'', 3)])"
proof -
  let ?its = "[song ''S1'' [''A''] 120000000 [(''ann'', 1), (''bo'', 0)],
               song ''S2'' [''B''] 60000000 [(''ann'', 0), (''bo'', 3)]]"
  let ?us = "[person ''ann'', person ''bo'']"
  have wf: "wf_store example_store" by (simp add: wf_store_def example_store_def)
  have vi: "view_items example_store 2 = Some ?its"
    by (simp add: view_items_def item_at_def example_store_def)
  have vu: "view_users example_store 5 = Some ?us"
    by (simp add: view_users_def user_at_def example_store_def)
  have nf: "next_free example_store = 6" by (simp add: example_store_def)
  have songs: "find_songs ?its ?us 1
      = Inr [(''ann'', [song ''S1'' [''A''] 120000000 [(''ann'', 1), (''bo'', 0)]]),
             (''bo'', [song ''S2'' [''B''] 60000000 [(''ann'', 0), (''bo'', 3)]])]"
    by (simp add: run_defs)
  have artists: "find_artists ?its ?us 1 = Inr [(''ann'', [(''A'', 1)]), (''bo'', [(''B'', 3)])]"
    by (simp add: run_defs)
  have minutes: "find_minutes ?its ?us = Inr [(''ann'', 2), (''bo'', 3)]"
    by (simp add: run_defs)
  have agg: "aggregate 1 1 (start ?its ?us)
      = Inr ((start ?its ?us)
          \<lparr>most_listened_songs :=
              [(''ann'', [song ''S1'' [''A''] 120000000 [(''ann'', 1), (''bo'', 0)]]),
               (''bo'', [song ''S2'' [''B''] 60000000 [(''ann'', 0), (''bo'', 3)]])],
           most_listened_artists := [(''ann'', [(''A'', 1)]), (''bo'', [(''B'', 3)])],
           minutes_listened := [(''ann'', 2), (''bo'', 3)]\<rparr>)"
    using songs artists minutes by (simp add: aggregate_def start_def)
  from rel_sum_InrD [OF store_aggregate_refines [OF wf vi vu, of 1 1, unfolded agg]]
  obtain songs artists minutes h' where
    run: "store_aggregate 1 1 2 5 example_store = Inr ((songs, artists, minutes), h')"
    by (auto simp only: split_paired_all)
  from aggregation_frame [OF wf vi vu run] agg nf
  have "(\<forall>a < 6. cells h' a = cells example_store a)
         \<and> view_items h' 2 = Some ?its
         \<and> view_users h' 5 = Some ?us
         \<and> distinct (result_objects h' songs artists minutes)
         \<and> (\<forall>a \<in> set (result_objects h' songs artists minutes). 6 \<le> a)
         \<and> view_songs h' songs
             = Some [(''ann'', [song ''S1'' [''A''] 120000000 [(''ann'', 1), (''bo'', 0)]]),
                     (''bo'', [song ''S2'' [''B''] 60000000 [(''ann'', 0), (''bo'', 3)]])]
         \<and> view_artists h' artists = Some [(''ann'', [(''A'', 1)]), (''bo'', [(''B'', 3)])]
         \<and> view_minutes h' minutes = Some [(''ann'', 2), (''bo'', 3)]"
    by auto
  with wf vi vu run show ?thesis by blast
qed

end
